theory Spec2Isabelle
  imports Complex_Main
begin

section \<open>JavaScript values used by dom-to-image-more.js\<close>

text \<open>
  A JavaScript string is modelled as a \<open>string\<close> (one \<open>char\<close> per code unit), a value
  that may be \<open>undefined\<close> as an \<open>option\<close> (\<open>None\<close> is \<open>undefined\<close>), and a promise by
  the state it ends in. A rejection carries the description of what was thrown.
\<close>

datatype 'a promise = Pending | Fulfilled 'a | Rejected string

text \<open>\<open>p.then(f)\<close>: the callback runs on the fulfilment value only.\<close>

fun then_p :: "'a promise \<Rightarrow> ('a \<Rightarrow> 'b promise) \<Rightarrow> 'b promise" where
  "then_p Pending f = Pending"
| "then_p (Fulfilled v) f = f v"
| "then_p (Rejected e) f = Rejected e"

text \<open>\<open>xs[i]\<close> on an array: \<open>undefined\<close> out of range.\<close>

fun array_at :: "'a list \<Rightarrow> nat \<Rightarrow> 'a option" where
  "array_at [] i = None"
| "array_at (x # xs) 0 = Some x"
| "array_at (x # xs) (Suc i) = array_at xs i"

text \<open>\<open>s.split(/,/)\<close>: the pieces between the commas; the empty string gives one empty piece.\<close>

fun split_comma :: "string \<Rightarrow> string list" where
  "split_comma [] = [[]]"
| "split_comma (c # cs) =
     (if c = CHR '','' then [] # split_comma cs
      else (case split_comma cs of [] \<Rightarrow> [[c]] | p # ps \<Rightarrow> (c # p) # ps))"

text \<open>Number to string, for the non-negative integers the code concatenates.\<close>

definition digit_char :: "nat \<Rightarrow> char" where
  "digit_char d = (''0123456789abcdefghijklmnopqrstuvwxyz'') ! d"

fun to_base :: "nat \<Rightarrow> nat \<Rightarrow> string" where
  "to_base b n =
     (if b < 2 \<or> n < b then [digit_char n] else to_base b (n div b) @ [digit_char (n mod b)])"

declare to_base.simps [simp del]

definition show_nat :: "nat \<Rightarrow> string" where
  "show_nat n = to_base 10 n"

section \<open>Options (lines 10-17 and 148-167)\<close>

text \<open>
  \<open>domtoimage.impl.options\<close> starts as \<open>{}\<close>, so each of its three properties may be
  \<open>undefined\<close>. The documented types are used: \<open>imagePlaceholder\<close> a String, the two flags
  Booleans.
\<close>

record impl_options =
  imagePlaceholder :: "string option"
  cacheBust :: "bool option"
  useCredentials :: "bool option"

definition defaultOptions :: impl_options where
  "defaultOptions = \<lparr> imagePlaceholder = None, cacheBust = Some False, useCredentials = Some False \<rparr>"

text \<open>The initial \<open>options: {}\<close> of \<open>domtoimage.impl\<close>.\<close>

definition empty_impl_options :: impl_options where
  "empty_impl_options = \<lparr> imagePlaceholder = None, cacheBust = None, useCredentials = None \<rparr>"


section \<open>Resource Fetcher: \<open>util.getAndEncode\<close> (lines 498-561)\<close>

text \<open>
  The host's XMLHttpRequest is modelled by its answer to the request. Either
  \<open>request.open\<close> (line 516) or \<open>request.send\<close> throws, as \<open>open\<close> does for a URL that cannot be
  parsed: the answer is \<open>Inl\<close> of what was thrown. Or both return and the host delivers
  events to the two handlers the code installs: the answer is \<open>Inr\<close> of the events, in order.
  An event is a call of \<open>onreadystatechange\<close>, with \<open>request.readyState\<close>, \<open>request.status\<close>
  and the \<open>encoder.result\<close> that the \<open>FileReader\<close> ends with when it is given
  \<open>request.response\<close> (\<open>None\<close> is \<open>null\<close>, the result of a read that failed), or a call of
  \<open>ontimeout\<close>.
\<close>

datatype xhr_event = ReadyStateChange nat nat "string option" | TimeoutEvent

type_synonym xhr_answer = "string + xhr_event list"

text \<open>The promise under construction and what was written to \<open>console.error\<close>.\<close>

record fetch_state =
  settled :: "string option promise"
  console :: "string list"

text \<open>\<open>resolve(v)\<close>: settles a pending promise; a settled one stays as it is.\<close>

definition resolve :: "string option \<Rightarrow> fetch_state \<Rightarrow> fetch_state" where
  "resolve v st = (case settled st of Pending \<Rightarrow> st\<lparr>settled := Fulfilled v\<rparr> | _ \<Rightarrow> st)"

definition fail :: "string \<Rightarrow> fetch_state \<Rightarrow> fetch_state" where
  "fail message st = resolve (Some []) (st\<lparr>console := console st @ [message]\<rparr>)"

text \<open>Lines 519-525: the placeholder's payload, when there is one.\<close>

definition placeholder_of :: "'a impl_options_scheme \<Rightarrow> string option" where
  "placeholder_of cfg =
     (case imagePlaceholder cfg of
        None \<Rightarrow> None
      | Some p \<Rightarrow>
          if p = [] then None
          else (case array_at (split_comma p) (Suc 0) of
                  None \<Rightarrow> None
                | Some s \<Rightarrow> if s = [] then None else Some s))"

definition TIMEOUT :: nat where
  "TIMEOUT = 30000"

text \<open>
  Lines 527-546: \<open>done\<close>. On status 200 the response is handed to a \<open>FileReader\<close>, whose
  \<open>onloadend\<close> resolves with the second piece of \<open>encoder.result\<close>; when the result is \<open>null\<close>,
  \<open>encoder.result.split\<close> throws inside that handler and the promise stays as it is.
\<close>

definition on_done ::
  "string option \<Rightarrow> string \<Rightarrow> nat \<Rightarrow> nat \<Rightarrow> string option \<Rightarrow> fetch_state \<Rightarrow> fetch_state" where
  "on_done placeholder url readyState status encoded st =
     (if readyState \<noteq> 4 then st
      else if status \<noteq> 200 then
        (case placeholder of
           Some p \<Rightarrow> resolve (Some p) st
         | None \<Rightarrow> fail (''cannot fetch resource: '' @ url @ '', status: '' @ show_nat status) st)
      else (case encoded of
              None \<Rightarrow> st
            | Some result \<Rightarrow> resolve (array_at (split_comma result) (Suc 0)) st))"

text \<open>Lines 548-554: \<open>timeout\<close>.\<close>

definition on_timeout :: "string option \<Rightarrow> string \<Rightarrow> fetch_state \<Rightarrow> fetch_state" where
  "on_timeout placeholder url st =
     (case placeholder of
        Some p \<Rightarrow> resolve (Some p) st
      | None \<Rightarrow> fail (''timeout of '' @ show_nat TIMEOUT @ ''ms occured while fetching resource: '' @ url) st)"

fun handle_event :: "string option \<Rightarrow> string \<Rightarrow> fetch_state \<Rightarrow> xhr_event \<Rightarrow> fetch_state" where
  "handle_event placeholder url st (ReadyStateChange readyState status encoded) =
     on_done placeholder url readyState status encoded st"
| "handle_event placeholder url st TimeoutEvent = on_timeout placeholder url st"

text \<open>Lines 500-504: the URL requested, with the time appended when cache busting is on.\<close>

definition request_url :: "'a impl_options_scheme \<Rightarrow> nat \<Rightarrow> string \<Rightarrow> string" where
  "request_url cfg now url =
     (if cacheBust cfg = Some True
      then url @ (if CHR ''?'' \<in> set url then ''&'' else ''?'') @ show_nat now
      else url)"

definition with_credentials :: "'a impl_options_scheme \<Rightarrow> bool" where
  "with_credentials cfg = (useCredentials cfg = Some True)"

text \<open>
  \<open>getAndEncode\<close>: \<open>now\<close> is \<open>(new Date()).getTime()\<close>, \<open>net\<close> the host's answer to a GET of
  a URL with or without credentials. The executor of the promise (lines 506-560) takes
  \<open>resolve\<close> only, so the handlers cannot reject; but what \<open>request.open\<close> or \<open>request.send\<close>
  throws is thrown inside the executor, and the promise is then rejected with it.
\<close>

definition fetch_events ::
  "'a impl_options_scheme \<Rightarrow> nat \<Rightarrow> (string \<Rightarrow> bool \<Rightarrow> xhr_answer) \<Rightarrow> string \<Rightarrow> xhr_answer" where
  "fetch_events cfg now net url = net (request_url cfg now url) (with_credentials cfg)"

definition fetch_init :: fetch_state where
  "fetch_init = \<lparr> settled = Pending, console = [] \<rparr>"

definition getAndEncode ::
  "'a impl_options_scheme \<Rightarrow> nat \<Rightarrow> (string \<Rightarrow> bool \<Rightarrow> xhr_answer) \<Rightarrow> string \<Rightarrow> fetch_state" where
  "getAndEncode cfg now net url =
     (case fetch_events cfg now net url of
        Inl thrown \<Rightarrow> fetch_init\<lparr>settled := Rejected thrown\<rparr>
      | Inr events \<Rightarrow>
          foldl (handle_event (placeholder_of cfg) (request_url cfg now url)) fetch_init events)"

text \<open>
  An event ends the request when it is the timeout or a ready-state change to state 4; it is
  a non-success when it is the timeout or state 4 with a status other than 200.
\<close>

fun terminal :: "xhr_event \<Rightarrow> bool" where
  "terminal (ReadyStateChange readyState status encoded) = (readyState = 4)"
| "terminal TimeoutEvent = True"

definition non_success :: "xhr_event \<Rightarrow> bool" where
  "non_success ev =
     (case ev of
        ReadyStateChange readyState status encoded \<Rightarrow> readyState = 4 \<and> status \<noteq> 200
      | TimeoutEvent \<Rightarrow> True)"

section \<open>Numbers\<close>

text \<open>
  A JavaScript number is modelled as \<open>NaN\<close>, an infinity or an exact rational: sums and
  products of finite numbers are exact here, where the host rounds to the nearest double
  and overflows to an infinity. The pixel sizes the properties below compute with are
  small integers, which doubles represent exactly.
\<close>

datatype jsnum = NaN | Fin rat | PosInf | NegInf

fun js_add :: "jsnum \<Rightarrow> jsnum \<Rightarrow> jsnum" where
  "js_add (Fin a) (Fin b) = Fin (a + b)"
| "js_add NaN y = NaN"
| "js_add x NaN = NaN"
| "js_add PosInf NegInf = NaN"
| "js_add NegInf PosInf = NaN"
| "js_add PosInf y = PosInf"
| "js_add NegInf y = NegInf"
| "js_add (Fin a) PosInf = PosInf"
| "js_add (Fin a) NegInf = NegInf"

fun js_mul :: "jsnum \<Rightarrow> jsnum \<Rightarrow> jsnum" where
  "js_mul (Fin a) (Fin b) = Fin (a * b)"
| "js_mul NaN y = NaN"
| "js_mul x NaN = NaN"
| "js_mul PosInf PosInf = PosInf"
| "js_mul PosInf NegInf = NegInf"
| "js_mul NegInf PosInf = NegInf"
| "js_mul NegInf NegInf = PosInf"
| "js_mul PosInf (Fin b) = (if b = 0 then NaN else if 0 < b then PosInf else NegInf)"
| "js_mul NegInf (Fin b) = (if b = 0 then NaN else if 0 < b then NegInf else PosInf)"
| "js_mul (Fin a) PosInf = (if a = 0 then NaN else if 0 < a then PosInf else NegInf)"
| "js_mul (Fin a) NegInf = (if a = 0 then NaN else if 0 < a then NegInf else PosInf)"

text \<open>A number is falsy when it is zero or \<open>NaN\<close>.\<close>

fun truthy_num :: "jsnum \<Rightarrow> bool" where
  "truthy_num NaN = False"
| "truthy_num (Fin a) = (a \<noteq> 0)"
| "truthy_num PosInf = True"
| "truthy_num NegInf = True"

text \<open>\<open>a || b\<close> for a possibly undefined number \<open>a\<close>.\<close>

fun num_or :: "jsnum option \<Rightarrow> jsnum \<Rightarrow> jsnum" where
  "num_or None d = d"
| "num_or (Some a) d = (if truthy_num a then a else d)"

subsection \<open>\<open>parseFloat\<close>\<close>

definition is_digit :: "char \<Rightarrow> bool" where
  "is_digit c = (c \<in> set ''0123456789'')"

definition digit_val :: "char \<Rightarrow> nat" where
  "digit_val c = of_char c - 48"

definition digits_val :: "string \<Rightarrow> nat" where
  "digits_val ds = foldl (\<lambda>n c. 10 * n + digit_val c) 0 ds"

definition is_space :: "char \<Rightarrow> bool" where
  "is_space c = (of_char c \<in> {9, 10, 11, 12, 13, 32, 160 :: nat})"

text \<open>An exponent part \<open>e\<close>, \<open>e+\<close> or \<open>e-\<close> followed by digits; 0 when there is none.\<close>

definition exponent_of :: "string \<Rightarrow> int" where
  "exponent_of s =
     (case s of
        [] \<Rightarrow> 0
      | c # r \<Rightarrow>
          if c = CHR ''e'' \<or> c = CHR ''E'' then
            (case r of
               [] \<Rightarrow> 0
             | d # r' \<Rightarrow>
                 if d = CHR ''-'' then
                   (if takeWhile is_digit r' = [] then 0 else - int (digits_val (takeWhile is_digit r')))
                 else if d = CHR ''+'' then int (digits_val (takeWhile is_digit r'))
                 else int (digits_val (takeWhile is_digit r)))
          else 0)"

definition scale10 :: "rat \<Rightarrow> int \<Rightarrow> rat" where
  "scale10 m e = (if 0 \<le> e then m * 10 ^ nat e else m / 10 ^ nat (- e))"

text \<open>The unsigned part of a decimal literal, read from the front of the string.\<close>

definition unsigned_literal :: "string \<Rightarrow> jsnum" where
  "unsigned_literal s =
     (if take 8 s = ''Infinity'' then PosInf
      else
        (let ip = takeWhile is_digit s;
             r = dropWhile is_digit s;
             fp = (case r of [] \<Rightarrow> [] | c # r' \<Rightarrow> if c = CHR ''.'' then takeWhile is_digit r' else []);
             r2 = (case r of [] \<Rightarrow> [] | c # r' \<Rightarrow> if c = CHR ''.'' then dropWhile is_digit r' else r)
         in if ip = [] \<and> fp = [] then NaN
            else Fin (scale10
                   (of_nat (digits_val ip) + of_nat (digits_val fp) / 10 ^ length fp)
                   (exponent_of r2))))"

fun js_neg :: "jsnum \<Rightarrow> jsnum" where
  "js_neg NaN = NaN"
| "js_neg (Fin a) = Fin (- a)"
| "js_neg PosInf = NegInf"
| "js_neg NegInf = PosInf"

definition parseFloat :: "string \<Rightarrow> jsnum" where
  "parseFloat s =
     (case dropWhile is_space s of
        [] \<Rightarrow> NaN
      | c # r \<Rightarrow>
          if c = CHR ''-'' then js_neg (unsigned_literal r)
          else if c = CHR ''+'' then unsigned_literal r
          else unsigned_literal (c # r))"

text \<open>\<open>s.replace(pat, by)\<close> with a string pattern: the first occurrence only.\<close>

fun replace_first :: "string \<Rightarrow> string \<Rightarrow> string \<Rightarrow> string" where
  "replace_first pat by [] = (if pat = [] then by else [])"
| "replace_first pat by (c # cs) =
     (if take (length pat) (c # cs) = pat then by @ drop (length pat) (c # cs)
      else c # replace_first pat by cs)"

section \<open>The source tree and the clone tree\<close>

text \<open>
  A resolved style as the host hands it out: its \<open>cssText\<close>, its \<open>font\<close> shorthand and its
  properties in index order, each with value and priority.
\<close>

record css_style =
  cssText :: string
  font :: string
  props :: "(string \<times> string \<times> string) list"

definition getPropertyValue :: "css_style \<Rightarrow> string \<Rightarrow> string" where
  "getPropertyValue st name = (case map_of (props st) name of None \<Rightarrow> [] | Some (v, p) \<Rightarrow> v)"

definition getPropertyPriority :: "css_style \<Rightarrow> string \<Rightarrow> string" where
  "getPropertyPriority st name = (case map_of (props st) name of None \<Rightarrow> [] | Some (v, p) \<Rightarrow> p)"

text \<open>The host classes the code tests with \<open>instanceof\<close>.\<close>

datatype kind = NonElement | Element | Canvas | TextArea | Input | Image | Svg | SvgRect

text \<open>
  What the code reads from a source node. \<open>nid\<close> is the node's identity; \<open>textData\<close> the
  data of a text node; \<open>currentValue\<close> the \<open>value\<close> of a text control; \<open>computed\<close>, \<open>style_before\<close> and \<open>style_after\<close> are \<open>window.getComputedStyle\<close>
  of the node and of its two pseudo-elements; \<open>dataURL\<close> is \<open>toDataURL()\<close> of a canvas.
\<close>

record node_info =
  nid :: nat
  kind :: kind
  tag :: string
  attrs :: "(string \<times> string) list"
  textData :: string
  computed :: css_style
  style_before :: css_style
  style_after :: css_style
  currentValue :: string
  dataURL :: string
  scrollWidth :: int
  scrollHeight :: int

datatype node = Node (info: node_info) (childNodes: "node list")

section \<open>Dimensions (lines 592-607, 66-70 and 184-187)\<close>

definition px :: "node \<Rightarrow> string \<Rightarrow> jsnum" where
  "px n styleProperty =
     parseFloat (replace_first ''px'' [] (getPropertyValue (computed (info n)) styleProperty))"

definition util_width :: "node \<Rightarrow> jsnum" where
  "util_width n =
     (let leftBorder = px n ''border-left-width'';
          rightBorder = px n ''border-right-width''
      in js_add (js_add (Fin (of_int (scrollWidth (info n)))) leftBorder) rightBorder)"

definition util_height :: "node \<Rightarrow> jsnum" where
  "util_height n =
     (let topBorder = px n ''border-top-width'';
          bottomBorder = px n ''border-bottom-width''
      in js_add (js_add (Fin (of_int (scrollHeight (info n)))) topBorder) bottomBorder)"

text \<open>
  The rendering options of a conversion: the three shared properties and the others.
  \<open>filter_fn\<close> is \<open>options.filter\<close>.
\<close>

record render_options = impl_options +
  filter_fn :: "(node \<Rightarrow> bool) option"
  bgcolor :: "string option"
  width :: "jsnum option"
  height :: "jsnum option"
  style :: "(string \<times> string) list option"
  quality :: "jsnum option"
  scale :: "jsnum option"

text \<open>The options object \<open>{}\<close>.\<close>

definition empty_options :: render_options where
  "empty_options =
     \<lparr> imagePlaceholder = None, cacheBust = None, useCredentials = None, filter_fn = None,
       bgcolor = None, width = None, height = None, style = None, quality = None,
       scale = None \<rparr>"

text \<open>
  Lines 68-69: the width and height \<open>toSvg\<close> passes to \<open>makeSvgDataUri\<close>, which writes them
  into the \<open>svg\<close> element.
\<close>

definition svg_width :: "render_options \<Rightarrow> node \<Rightarrow> jsnum" where
  "svg_width options n = num_or (width options) (util_width n)"

definition svg_height :: "render_options \<Rightarrow> node \<Rightarrow> jsnum" where
  "svg_height options n = num_or (height options) (util_height n)"

text \<open>Lines 174 and 186-187: the scale and the size \<open>newCanvas\<close> gives the canvas.\<close>

definition draw_scale :: "render_options \<Rightarrow> jsnum" where
  "draw_scale options = (case scale options of None \<Rightarrow> Fin 1 | Some s \<Rightarrow> s)"

definition canvas_width :: "render_options \<Rightarrow> node \<Rightarrow> jsnum" where
  "canvas_width options n =
     js_mul (num_or (width options) (util_width n)) (draw_scale options)"

definition canvas_height :: "render_options \<Rightarrow> node \<Rightarrow> jsnum" where
  "canvas_height options n =
     js_mul (num_or (height options) (util_height n)) (draw_scale options)"






section \<open>Snapshot Cloner (lines 199-341)\<close>

text \<open>
  The clone tree. \<open>clone.style\<close> is kept as the assignments made to it, in order. \<open>origin\<close>
  is not part of the DOM: it records which source node a clone was made from, and is
  \<open>None\<close> for the nodes the cloner creates itself. \<open>Parsed s\<close> stands for the nodes the
  host's parser makes of \<open>s\<close> when \<open>innerHTML\<close> is assigned.
\<close>

datatype style_op =
  SetCssText string | SetFont string | SetFontStretch string | SetProperty string string string

record clone_info =
  origin :: "nat option"
  ckind :: kind
  ctag :: string
  cattrs :: "(string \<times> string) list"
  cstyle :: "style_op list"
  ctext :: string

datatype cnode = CNode (cinfo: clone_info) (cchildren: "cnode list") | Parsed string

text \<open>
  The host as the code sees it: whether an image with a given source loads; the integer
  \<open>Math.random() * Math.pow(36, 4) << 0\<close> of the k-th call of \<open>uid\<close>; the text that the
  member of \<open>Object.prototype\<close> of a given name concatenates as (\<open>None\<close> when there is no
  such member), which a property lookup on an object literal also finds;
  \<open>util.resolveUrl\<close>, which the code leaves to the document's URL resolution; and the URL
  that \<open>element.src\<close> reads for an element whose \<open>src\<close> attribute holds a given text, which
  is that text resolved against the document.
\<close>

record host =
  image_loads :: "string \<Rightarrow> bool"
  random36 :: "nat \<Rightarrow> nat"
  inherited :: "string \<Rightarrow> string option"
  resolveUrl :: "string \<Rightarrow> string \<Rightarrow> string"
  reflected_src :: "string \<Rightarrow> string"

text \<open>
  The state the cloner changes: the counter of \<open>uid\<close> and, for the properties below, the
  identities of the nodes the filter was called on.
\<close>

record clone_state =
  uid_index :: nat
  filter_calls :: "nat list"

fun getAttribute :: "cnode \<Rightarrow> string \<Rightarrow> string option" where
  "getAttribute (CNode ci cs) name = map_of (cattrs ci) name"
| "getAttribute (Parsed s) name = None"

fun set_assoc :: "string \<Rightarrow> string \<Rightarrow> (string \<times> string) list \<Rightarrow> (string \<times> string) list" where
  "set_assoc name v [] = [(name, v)]"
| "set_assoc name v ((k, w) # kvs) =
     (if k = name then (k, v) # kvs else (k, w) # set_assoc name v kvs)"

fun setAttribute :: "string \<Rightarrow> string \<Rightarrow> cnode \<Rightarrow> cnode" where
  "setAttribute name v (CNode ci cs) = CNode (ci\<lparr>cattrs := set_assoc name v (cattrs ci)\<rparr>) cs"
| "setAttribute name v (Parsed s) = Parsed s"

fun appendChild :: "cnode \<Rightarrow> cnode \<Rightarrow> cnode" where
  "appendChild (CNode ci cs) c = CNode ci (cs @ [c])"
| "appendChild (Parsed s) c = Parsed s"





definition createElement :: "string \<Rightarrow> cnode" where
  "createElement t =
     CNode \<lparr> origin = None, ckind = Element, ctag = t, cattrs = [], cstyle = [], ctext = [] \<rparr> []"

definition createTextNode :: "string \<Rightarrow> cnode" where
  "createTextNode s =
     CNode \<lparr> origin = None, ckind = NonElement, ctag = ''#text'', cattrs = [], cstyle = [],
             ctext = s \<rparr> []"


text \<open>Lines 470-481: \<open>util.uid\<close>.\<close>

definition fourRandomChars :: "host \<Rightarrow> nat \<Rightarrow> string" where
  "fourRandomChars h k =
     (let s = ''0000'' @ to_base 36 (random36 h k) in drop (length s - 4) s)"

definition uid :: "host \<Rightarrow> clone_state \<Rightarrow> string \<times> clone_state" where
  "uid h st =
     (''u'' @ fourRandomChars h (uid_index st) @ show_nat (uid_index st),
      st\<lparr>uid_index := Suc (uid_index st)\<rparr>)"

text \<open>Lines 211-214: \<open>node.cloneNode(false)\<close>, or the snapshot of a canvas.\<close>

definition shallow_copy :: "node \<Rightarrow> cnode" where
  "shallow_copy n =
     CNode \<lparr> origin = Some (nid (info n)), ckind = kind (info n), ctag = tag (info n),
             cattrs = attrs (info n), cstyle = [], ctext = textData (info n) \<rparr> []"





text \<open>Lines 276-321: \<open>clonePseudoElements\<close>.\<close>

definition pseudo_style :: "node \<Rightarrow> string \<Rightarrow> css_style" where
  "pseudo_style original element =
     (if element = '':before'' then style_before (info original)
      else if element = '':after'' then style_after (info original)
      else computed (info original))"

definition formatCssText :: "css_style \<Rightarrow> string" where
  "formatCssText st = cssText st @ '' content: '' @ getPropertyValue st ''content'' @ '';''"

fun join :: "string \<Rightarrow> string list \<Rightarrow> string" where
  "join sep [] = []"
| "join sep [x] = x"
| "join sep (x # y # ys) = x @ sep @ join sep (y # ys)"

definition formatProperty :: "css_style \<Rightarrow> string \<Rightarrow> string" where
  "formatProperty st name =
     name @ '': '' @ getPropertyValue st name @
       (if getPropertyPriority st name \<noteq> [] then '' !important'' else [])"

definition formatCssProperties :: "css_style \<Rightarrow> string" where
  "formatCssProperties st = join ''; '' (map (formatProperty st) (map fst (props st))) @ '';''"

definition formatPseudoElementStyle :: "string \<Rightarrow> string \<Rightarrow> css_style \<Rightarrow> cnode" where
  "formatPseudoElementStyle className element st =
     (let selector = ''.'' @ className @ '':'' @ element;
          css = (if cssText st \<noteq> [] then formatCssText st else formatCssProperties st)
      in createTextNode (selector @ ''{'' @ css @ ''}''))"

definition clonePseudoElement ::
  "host \<Rightarrow> node \<Rightarrow> string \<Rightarrow> cnode \<Rightarrow> clone_state \<Rightarrow> cnode \<times> clone_state" where
  "clonePseudoElement h original element clone st =
     (let st_el = pseudo_style original element;
          content = getPropertyValue st_el ''content''
      in if content = [] \<or> content = ''none'' then (clone, st)
         else
           (let (className, st1) = uid h st;
                clone1 = (case getAttribute clone ''class'' of
                            None \<Rightarrow> clone
                          | Some currentClass \<Rightarrow>
                              if currentClass = [] then clone
                              else setAttribute ''class'' (currentClass @ '' '' @ className) clone);
                styleElement = appendChild (createElement ''style'')
                                 (formatPseudoElementStyle className element st_el)
            in (appendChild clone1 styleElement, st1)))"

















section \<open>Utilities of the inliner (lines 398-433 and 563-569)\<close>

definition mimes :: "(string \<times> string) list" where
  "mimes =
     [(''woff'', ''application/font-woff''), (''woff2'', ''application/font-woff''),
      (''ttf'', ''application/font-truetype''), (''eot'', ''application/vnd.ms-fontobject''),
      (''png'', ''image/png''), (''jpg'', ''image/jpeg''), (''jpeg'', ''image/jpeg''),
      (''gif'', ''image/gif''), (''tiff'', ''image/tiff''), (''svg'', ''image/svg+xml'')]"

text \<open>
  \<open>/\.([^\.\/]*?)(\?|$)/g.exec(url)\<close>: the leftmost dot after which no dot and no slash
  comes before the first question mark or the end; group 1 is the text in between.
\<close>

fun ext_body :: "string \<Rightarrow> string option" where
  "ext_body [] = Some []"
| "ext_body (c # cs) =
     (if c = CHR ''?'' then Some []
      else if c = CHR ''.'' \<or> c = CHR ''/'' then None
      else map_option ((#) c) (ext_body cs))"

fun parseExtension :: "string \<Rightarrow> string" where
  "parseExtension [] = []"
| "parseExtension (c # cs) =
     (if c = CHR ''.'' then (case ext_body cs of Some e \<Rightarrow> e | None \<Rightarrow> parseExtension cs)
      else parseExtension cs)"

definition lower_char :: "char \<Rightarrow> char" where
  "lower_char c =
     (case map_of (zip ''ABCDEFGHIJKLMNOPQRSTUVWXYZ'' ''abcdefghijklmnopqrstuvwxyz'') c of
        None \<Rightarrow> c | Some l \<Rightarrow> l)"

definition toLowerCase :: "string \<Rightarrow> string" where
  "toLowerCase s = map lower_char s"

text \<open>
  \<open>mimes()[extension] || ''\<close>: the table's entry, else what the object inherits under that
  name, else the empty string. The result is the text it concatenates as.
\<close>

definition mimeType :: "host \<Rightarrow> string \<Rightarrow> string" where
  "mimeType h url =
     (let extension = toLowerCase (parseExtension url)
      in case map_of mimes extension of
           Some m \<Rightarrow> m
         | None \<Rightarrow> (case inherited h extension of Some txt \<Rightarrow> txt | None \<Rightarrow> []))"

definition isDataUrl :: "string \<Rightarrow> bool" where
  "isDataUrl url = (take 5 url = ''data:'')"

text \<open>String concatenation turns \<open>undefined\<close> into the text \<open>undefined\<close>.\<close>

definition text_of :: "string option \<Rightarrow> string" where
  "text_of v = (case v of None \<Rightarrow> ''undefined'' | Some s \<Rightarrow> s)"

definition dataAsUrl :: "string option \<Rightarrow> string \<Rightarrow> string" where
  "dataAsUrl content type = ''data:'' @ type @ '';base64,'' @ text_of content"

text \<open>\<open>util.escape\<close>: a backslash before each of \<open>. * + ? ^ $ { } ( ) | [ ] / \\<close>.\<close>

definition special :: "char \<Rightarrow> bool" where
  "special c = (c \<in> set ''.*+?^${}()|[]/'' \<or> c = CHR 0x5C)"

fun escape :: "string \<Rightarrow> string" where
  "escape [] = []"
| "escape (c # cs) = (if special c then CHR 0x5C # c # escape cs else c # escape cs)"

text \<open>
  The text a pattern matches when it is made of characters that stand for themselves and
  of backslash escapes of special characters; \<open>None\<close> for any other pattern.
\<close>

fun literal_of :: "string \<Rightarrow> string option" where
  "literal_of [] = Some []"
| "literal_of [c] = (if special c then None else Some [c])"
| "literal_of (c # d # cs) =
     (if c = CHR 0x5C then (if special d then map_option ((#) d) (literal_of cs) else None)
      else if special c then None
      else map_option ((#) c) (literal_of (d # cs)))"

section \<open>CSS Reference Inliner (lines 610-674)\<close>

definition is_quote :: "char \<Rightarrow> bool" where
  "is_quote c = (c = CHR 0x27 \<or> c = CHR 0x22)"

text \<open>
  \<open>URL_REGEX = /url\(['"]?([^'"]+?)['"]?\)/g\<close> matched at the start of a string. After
  \<open>url(\<close> and an optional quote, group 1 takes one character that is not a quote and then
  as few more as possible: it ends before the first \<open>)\<close> or quote; a quote must be followed
  by \<open>)\<close>. \<open>url_body g s\<close> continues a match whose group so far is \<open>g\<close>; the result is the
  quote after \<open>url(\<close>, group 1, the quote before \<open>)\<close> and the text after the match.
\<close>

fun url_body :: "string \<Rightarrow> string \<Rightarrow> (string \<times> string \<times> string) option" where
  "url_body g [] = None"
| "url_body g (c # cs) =
     (if is_quote c then
        (case cs of [] \<Rightarrow> None | d # ds \<Rightarrow> if d = CHR '')'' then Some (g, [c], ds) else None)
      else if c = CHR '')'' then Some (g, [], cs)
      else url_body (g @ [c]) cs)"

definition after_open :: "string \<Rightarrow> (string \<times> string \<times> string \<times> string) option" where
  "after_open r =
     (let q = (case r of [] \<Rightarrow> [] | c # cs \<Rightarrow> if is_quote c then [c] else []);
          r' = drop (length q) r
      in case r' of
           [] \<Rightarrow> None
         | c # cs \<Rightarrow>
             if is_quote c then None
             else map_option (\<lambda>(g, q', rest). (q, g, q', rest)) (url_body [c] cs))"

definition match_url :: "string \<Rightarrow> (string \<times> string \<times> string \<times> string) option" where
  "match_url s = (if take 4 s = ''url('' then after_open (drop 4 s) else None)"

text \<open>\<open>string.search(URL_REGEX) !== -1\<close>.\<close>

fun shouldProcess :: "string \<Rightarrow> bool" where
  "shouldProcess [] = False"
| "shouldProcess (c # cs) = (match_url (c # cs) \<noteq> None \<or> shouldProcess cs)"

text \<open>
  \<open>readUrls\<close>: \<open>URL_REGEX.exec\<close> in a loop. Each match starts where the last one ended; the
  loop runs until there is no match, which resets \<open>lastIndex\<close>, so every call starts at 0.
\<close>

lemma drop_Cons_length: "drop n s = x # xs \<Longrightarrow> length s = n + Suc (length xs)"
proof -
  assume "drop n s = x # xs"
  then have "length s - n = Suc (length xs)"
    using length_drop [of n s] by simp
  then show ?thesis by arith
qed

lemma url_body_shorter: "url_body g s = Some (g', q', rest) \<Longrightarrow> length rest < length s"
  by (induction g s rule: url_body.induct) (auto split: if_splits list.splits)

lemma match_url_shorter:
  assumes "match_url s = Some (q, g, q', rest)"
  shows "length rest < length s"
proof -
  from assms obtain c cs g0 where "drop (length q) (drop 4 s) = c # cs"
      and "url_body g0 cs = Some (g, q', rest)"
    by (auto simp: match_url_def after_open_def Let_def split: if_splits list.splits)
  then have "length rest < length cs" and "length cs < length (drop 4 s)"
    using url_body_shorter drop_Cons_length [of "length q" "drop 4 s" c cs] by auto
  then show ?thesis by simp
qed

function scan_urls :: "string \<Rightarrow> string list" where
  "scan_urls [] = []"
| "scan_urls (c # cs) =
     (case match_url (c # cs) of
        Some (q, g, q', rest) \<Rightarrow> g # scan_urls rest
      | None \<Rightarrow> scan_urls cs)"
  by pat_completeness auto
termination
  by (relation "measure length") (auto dest: match_url_shorter)

definition readUrls :: "string \<Rightarrow> string list" where
  "readUrls s = filter (\<lambda>url. \<not> isDataUrl url) (scan_urls s)"

text \<open>
  \<open>urlAsRegex(url)\<close>, the pattern \<open>(url\(['"]?)(\<close>escaped url\<open>)(['"]?\))\<close>, matched at the
  start of a string: the result is group 1, group 3 and the text after the match. The
  escaped URL matches the URL itself (see \<open>literal_of_escape\<close> below). A quote after \<open>url(\<close>
  is taken when the rest then matches, and left to the URL otherwise.
\<close>

definition close_ref :: "string \<Rightarrow> (string \<times> string) option" where
  "close_ref t =
     (case t of
        [] \<Rightarrow> None
      | c # cs \<Rightarrow>
          if is_quote c then
            (case cs of [] \<Rightarrow> None | d # ds \<Rightarrow> if d = CHR '')'' then Some ([c, d], ds) else None)
          else if c = CHR '')'' then Some ([c], cs)
          else None)"

definition after_url :: "string \<Rightarrow> string \<Rightarrow> (string \<times> string) option" where
  "after_url url t =
     (if take (length url) t = url then close_ref (drop (length url) t) else None)"

definition match_ref :: "string \<Rightarrow> string \<Rightarrow> (string \<times> string \<times> string) option" where
  "match_ref url s =
     (if take 4 s = ''url('' then
        (let r = drop 4 s;
             quoted = (case r of
                         [] \<Rightarrow> None
                       | c # cs \<Rightarrow>
                           if is_quote c
                           then map_option (\<lambda>(g3, rest). (''url('' @ [c], g3, rest)) (after_url url cs)
                           else None)
         in case quoted of
              Some found \<Rightarrow> Some found
            | None \<Rightarrow> map_option (\<lambda>(g3, rest). (''url('', g3, rest)) (after_url url r))
      else None)"

text \<open>
  The replacement text of \<open>String.prototype.replace\<close> for a template: \<open>$$\<close>, \<open>$&\<close>, \<open>$`\<close>, \<open>$'\<close>
  and \<open>$n\<close>, \<open>$nn\<close> for the captures; a two-digit index beyond the captures is read as one
  digit followed by a digit, and any other \<open>$\<close> stands for itself.
\<close>

definition capture_ref :: "string list \<Rightarrow> nat \<Rightarrow> string option" where
  "capture_ref caps index =
     (if 1 \<le> index \<and> index \<le> length caps then Some (caps ! (index - 1)) else None)"

fun expand :: "string \<Rightarrow> string \<Rightarrow> string list \<Rightarrow> string \<Rightarrow> string \<Rightarrow> string" where
  "expand [] matched caps front back = []"
| "expand [c] matched caps front back = [c]"
| "expand (c # d # t) matched caps front back =
     (if c \<noteq> CHR ''$'' then c # expand (d # t) matched caps front back
      else if d = CHR ''$'' then CHR ''$'' # expand t matched caps front back
      else if d = CHR ''&'' then matched @ expand t matched caps front back
      else if d = CHR 0x60 then front @ expand t matched caps front back
      else if d = CHR 0x27 then back @ expand t matched caps front back
      else if is_digit d then
        (case t of
           [] \<Rightarrow>
             (case capture_ref caps (digit_val d) of
                Some cap \<Rightarrow> cap
              | None \<Rightarrow> [c, d])
         | e # t' \<Rightarrow>
             if is_digit e \<and> 10 * digit_val d + digit_val e \<le> length caps then
               (case capture_ref caps (10 * digit_val d + digit_val e) of
                  Some cap \<Rightarrow> cap @ expand t' matched caps front back
                | None \<Rightarrow> [c, d, e] @ expand t' matched caps front back)
             else
               (case capture_ref caps (digit_val d) of
                  Some cap \<Rightarrow> cap @ expand (e # t') matched caps front back
                | None \<Rightarrow> [c, d] @ expand (e # t') matched caps front back))
      else c # expand (d # t) matched caps front back)"

text \<open>
  \<open>string.replace(urlAsRegex(url), template)\<close> with the global flag: every match, found
  from left to right after the previous one, is replaced; \<open>front\<close> is the text of the
  original string in front of the current position.
\<close>

lemma close_ref_shorter: "close_ref t = Some (g3, rest) \<Longrightarrow> length rest < length t"
  by (auto simp: close_ref_def split: list.splits if_splits)

lemma after_url_shorter: "after_url url t = Some (g3, rest) \<Longrightarrow> length rest < length t"
  by (auto simp: after_url_def split: if_splits dest!: close_ref_shorter)

lemma match_ref_shorter:
  assumes "match_ref url s = Some (g1, g3, rest)"
  shows "length rest < length s"
proof -
  from assms have "(\<exists>c cs. drop 4 s = c # cs \<and> after_url url cs = Some (g3, rest)) \<or>
      after_url url (drop 4 s) = Some (g3, rest)"
    by (auto simp: match_ref_def Let_def split: if_splits list.splits option.splits)
  then have "length rest < length (drop 4 s)"
    using after_url_shorter by fastforce
  then show ?thesis by simp
qed

function replace_refs :: "string \<Rightarrow> string \<Rightarrow> string \<Rightarrow> string \<Rightarrow> string" where
  "replace_refs url template front [] = []"
| "replace_refs url template front (c # cs) =
     (case match_ref url (c # cs) of
        Some (g1, g3, rest) \<Rightarrow>
          expand template (g1 @ url @ g3) [g1, url, g3] front rest
            @ replace_refs url template (front @ g1 @ url @ g3) rest
      | None \<Rightarrow> c # replace_refs url template (front @ [c]) cs)"
  by pat_completeness auto
termination
  by (relation "measure (\<lambda>(url, template, front, s). length s)")
     (auto dest: match_ref_shorter)

text \<open>
  Lines 637-653: \<open>inline\<close>. \<open>get\<close> is the fetch (\<open>get || util.getAndEncode\<close>); the MIME type is
  taken from the URL as written, not from the resolved one.
\<close>

definition template :: "string \<Rightarrow> string" where
  "template dataUrl = ''$1'' @ dataUrl @ ''$3''"

definition fetch_target :: "host \<Rightarrow> string option \<Rightarrow> string \<Rightarrow> string" where
  "fetch_target h baseUrl url =
     (case baseUrl of None \<Rightarrow> url | Some b \<Rightarrow> if b = [] then url else resolveUrl h url b)"

definition inline ::
  "host \<Rightarrow> (string \<Rightarrow> string option promise) \<Rightarrow> string \<Rightarrow> string \<Rightarrow> string option \<Rightarrow> string promise" where
  "inline h get string url baseUrl =
     then_p (get (fetch_target h baseUrl url))
       (\<lambda>data. Fulfilled
          (replace_refs url (template (dataAsUrl data (mimeType h url))) [] string))"

text \<open>Lines 655-673: \<open>inlineAll\<close>.\<close>

definition inlineAll ::
  "host \<Rightarrow> (string \<Rightarrow> string option promise) \<Rightarrow> string \<Rightarrow> string option \<Rightarrow> string promise" where
  "inlineAll h get string baseUrl =
     (if \<not> shouldProcess string then Fulfilled string
      else foldl (\<lambda>done url. then_p done (\<lambda>string. inline h get string url baseUrl))
             (Fulfilled string) (readUrls string))"

text \<open>The fetch the inliner and the images use when no \<open>get\<close> is handed in.\<close>

definition util_get ::
  "'a impl_options_scheme \<Rightarrow> nat \<Rightarrow> (string \<Rightarrow> bool \<Rightarrow> xhr_answer) \<Rightarrow> string \<Rightarrow> string option promise" where
  "util_get cfg now net url = settled (getAndEncode cfg now net url)"

section \<open>Image Embedder: \<open>newImage(element).inline\<close> (lines 757-773)\<close>

text \<open>
  Reading \<open>element.src\<close> gives the empty string when there is no \<open>src\<close> attribute and
  otherwise the attribute as the host resolves it against the document; the data-URL test,
  the fetch and the MIME type all take this URL. Assigning \<open>element.src\<close> sets the
  attribute. The last promise is resolved by the element's \<open>load\<close> and by its \<open>error\<close> event
  alike.
\<close>

definition image_src :: "host \<Rightarrow> cnode \<Rightarrow> string" where
  "image_src h element =
     (case getAttribute element ''src'' of None \<Rightarrow> [] | Some s \<Rightarrow> reflected_src h s)"

definition image_inline ::
  "host \<Rightarrow> (string \<Rightarrow> string option promise) \<Rightarrow> cnode \<Rightarrow> cnode promise" where
  "image_inline h get element =
     (if isDataUrl (image_src h element) then Fulfilled element
      else then_p (get (image_src h element))
             (\<lambda>data. Fulfilled
                (setAttribute ''src'' (dataAsUrl data (mimeType h (image_src h element)))
                   element)))"

section \<open>A text as the scan cuts it\<close>

text \<open>
  The matches of \<open>URL_REGEX\<close> in a text, from left to right, and the characters between
  them: \<open>Ref q g q'\<close> is a match \<open>url(\<close> \<open>q\<close> \<open>g\<close> \<open>q'\<close> \<open>)\<close> with group 1 \<open>g\<close>.
\<close>

datatype token = Lit char | Ref string string string

fun render_token :: "token \<Rightarrow> string" where
  "render_token (Lit c) = [c]"
| "render_token (Ref q g q') = ''url('' @ q @ g @ q' @ '')''"

definition render :: "token list \<Rightarrow> string" where
  "render ts = concat (map render_token ts)"

function tokens :: "string \<Rightarrow> token list" where
  "tokens [] = []"
| "tokens (c # cs) =
     (case match_url (c # cs) of
        Some (q, g, q', rest) \<Rightarrow> Ref q g q' # tokens rest
      | None \<Rightarrow> Lit c # tokens cs)"
  by pat_completeness auto
termination
  by (relation "measure length") (auto dest: match_url_shorter)

fun groups :: "token list \<Rightarrow> string list" where
  "groups [] = []"
| "groups (Lit c # ts) = groups ts"
| "groups (Ref q g q' # ts) = g # groups ts"

text \<open>The reference \<open>url\<close> replaced by \<open>d\<close> in a token.\<close>

fun subst :: "string \<Rightarrow> string \<Rightarrow> token \<Rightarrow> token" where
  "subst url d (Lit c) = Lit c"
| "subst url d (Ref q g q') = Ref q (if g = url then d else g) q'"

text \<open>
  Claim C8 in these terms: every reference that is not a data URL replaced by the data
  URL of its payload, \<open>data:\<close> MIME type \<open>;base64,\<close> payload, everything else as it was.
\<close>

fun spec_embed :: "host \<Rightarrow> (string \<Rightarrow> string) \<Rightarrow> token \<Rightarrow> token" where
  "spec_embed h payload (Lit c) = Lit c"
| "spec_embed h payload (Ref q g q') =
     Ref q (if isDataUrl g then g else dataAsUrl (Some (payload g)) (mimeType h g)) q'"

definition base64 :: "string \<Rightarrow> bool" where
  "base64 s =
     (\<forall>c\<in>set s. c \<in> set ''ABCDEFGHIJKLMNOPQRSTUVWXYZabcdefghijklmnopqrstuvwxyz0123456789+/='')"

text \<open>
  What the lemmas on the scan use: an optional quote; a text that can be group 1 of a
  match (not empty, no quote, no \<open>)\<close> after its first character); tokens whose references
  are such matches; a text without quote and \<open>)\<close>; a text without quote, \<open>$\<close> and
  parentheses; and the references of a list replaced one after the other.
\<close>

definition quote_opt :: "string \<Rightarrow> bool" where
  "quote_opt q = (case q of [] \<Rightarrow> True | c # cs \<Rightarrow> is_quote c \<and> cs = [])"

definition wf_group :: "string \<Rightarrow> bool" where
  "wf_group g = (g \<noteq> [] \<and> (\<forall>c\<in>set g. \<not> is_quote c) \<and> CHR '')'' \<notin> set (tl g))"

definition wf_ref :: "string \<Rightarrow> string \<Rightarrow> string \<Rightarrow> bool" where
  "wf_ref q g q' = (quote_opt q \<and> wf_group g \<and> quote_opt q')"

fun wf_token :: "token \<Rightarrow> bool" where
  "wf_token (Lit c) = True"
| "wf_token (Ref q g q') = wf_ref q g q'"

definition wf_data :: "string \<Rightarrow> bool" where
  "wf_data d = (d \<noteq> [] \<and> (\<forall>c\<in>set d. \<not> is_quote c \<and> c \<noteq> CHR '')''))"

definition plain :: "string \<Rightarrow> bool" where
  "plain s = (\<forall>c\<in>set s. \<not> is_quote c \<and> c \<noteq> CHR ''$'' \<and> c \<noteq> CHR ''('' \<and> c \<noteq> CHR '')'')"

fun subst_all :: "(string \<Rightarrow> string) \<Rightarrow> string list \<Rightarrow> token list \<Rightarrow> token list" where
  "subst_all D [] T = T"
| "subst_all D (u # us) T = subst_all D us (map (subst u (D u)) T)"

section \<open>The claims' readings and sample inputs\<close>

text \<open>
  The reading of claim C4 as the spec words it: the larger of the explicitly requested
  dimension and the scroll-box dimension.
\<close>

fun js_max :: "jsnum \<Rightarrow> jsnum \<Rightarrow> jsnum" where
  "js_max (Fin a) (Fin b) = Fin (max a b)"
| "js_max NaN y = NaN"
| "js_max x NaN = NaN"
| "js_max PosInf y = PosInf"
| "js_max x PosInf = PosInf"
| "js_max NegInf y = y"
| "js_max x NegInf = x"

definition spec_larger :: "jsnum option \<Rightarrow> jsnum \<Rightarrow> jsnum" where
  "spec_larger explicit box = (case explicit of None \<Rightarrow> box | Some e \<Rightarrow> js_max e box)"

text \<open>Sample inputs: a style with no properties and a node with nothing set.\<close>

definition no_style :: css_style where
  "no_style = \<lparr> cssText = [], font = [], props = [] \<rparr>"

definition blank :: "nat \<Rightarrow> kind \<Rightarrow> string \<Rightarrow> node_info" where
  "blank i k t =
     \<lparr> nid = i, kind = k, tag = t, attrs = [], textData = [], computed = no_style,
       style_before = no_style, style_after = no_style, currentValue = [], dataURL = [],
       scrollWidth = 0, scrollHeight = 0 \<rparr>"

text \<open>
  A host on which every image loads, a relative URL resolves by appending it to the
  base and the document is \<open>http://localhost/\<close>, a cloner state before the first call, a page whose
  only child is a canvas of size zero (its \<open>toDataURL()\<close> is \<open>data:,\<close>), and a page of three
  children with the filter that rejects the second.
\<close>

definition sample_host :: host where
  "sample_host =
     \<lparr> image_loads = (\<lambda>u. True), random36 = (\<lambda>k. 12345 + k),
       inherited = (\<lambda>name. if name = ''constructor'' then Some ''function Object() { [native code] }''
                           else if name = ''__proto__'' then Some ''[object Object]'' else None),
       resolveUrl = (\<lambda>url baseUrl. baseUrl @ url),
       reflected_src = (\<lambda>s. ''http://localhost/'' @ s) \<rparr>"

definition fresh_state :: clone_state where
  "fresh_state = \<lparr> uid_index = 0, filter_calls = [] \<rparr>"




text \<open>An element without a \<open>class\<close> attribute whose \<open>:before\<close> has the content \<open>"x"\<close>.\<close>

definition before_page :: node where
  "before_page =
     Node ((blank 0 Element ''div'')
             \<lparr> style_before := no_style \<lparr> props := [(''content'', [CHR 0x22, CHR ''x'', CHR 0x22], [])] \<rparr> \<rparr>) []"

text \<open>
  A request that ends with status 404, one that loads a PNG, a host whose \<open>request.open\<close>
  throws on the URL \<open>http://[\<close>, a placeholder, an \<open>img\<close> element with source \<open>a.png\<close>, and
  a fetch that answers every URL with the payload \<open>QUJD\<close>.
\<close>

definition not_found :: "string \<Rightarrow> bool \<Rightarrow> xhr_answer" where
  "not_found url credentials = Inr [ReadyStateChange 4 404 None]"

definition found_png :: "string \<Rightarrow> bool \<Rightarrow> xhr_answer" where
  "found_png url credentials =
     Inr [ReadyStateChange 2 200 None, ReadyStateChange 3 200 None,
          ReadyStateChange 4 200 (Some ''data:image/png;base64,QUJD'')]"

definition open_throws :: "string \<Rightarrow> bool \<Rightarrow> xhr_answer" where
  "open_throws url credentials =
     (if url = ''http://['' then Inl ''SyntaxError'' else not_found url credentials)"

definition with_placeholder :: impl_options where
  "with_placeholder = defaultOptions\<lparr>imagePlaceholder := Some ''data:image/png;base64,AAAA''\<rparr>"

definition img_a :: cnode where
  "img_a =
     CNode \<lparr> origin = Some 1, ckind = Image, ctag = ''img'', cattrs = [(''src'', ''a.png'')],
             cstyle = [], ctext = [] \<rparr> []"

definition get_abc :: "string \<Rightarrow> string option promise" where
  "get_abc url = Fulfilled (Some ''QUJD'')"

text \<open>A text with a quoted reference to a PNG and a bare reference of unknown type.\<close>

definition two_refs :: string where
  "two_refs = ''a url('' @ [CHR 0x27] @ ''x.png'' @ [CHR 0x27] @ '') b url(y.foo)''"

definition two_refs_inlined :: string where
  "two_refs_inlined =
     ''a url('' @ [CHR 0x27] @ ''data:image/png;base64,QUJD'' @ [CHR 0x27]
       @ '') b url(data:;base64,QUJD)''"

text \<open>
  A 200 by 100 box with left and right borders of 1px and top and bottom borders of 2px.
\<close>

definition bordered_box :: node where
  "bordered_box =
     Node ((blank 0 Element ''div'')
             \<lparr> computed := no_style \<lparr> props :=
                  [(''border-left-width'', ''1px'', []), (''border-right-width'', ''1px'', []),
                   (''border-top-width'', ''2px'', []), (''border-bottom-width'', ''2px'', [])] \<rparr>,
               scrollWidth := 200, scrollHeight := 100 \<rparr>) []"

section \<open>Properties of the Resource Fetcher\<close>

lemma resolve_settled: "settled st \<noteq> Pending \<Longrightarrow> resolve v st = st"
  by (cases "settled st") (simp_all add: resolve_def)

lemma resolve_pending: "settled st = Pending \<Longrightarrow> settled (resolve v st) = Fulfilled v"
  by (simp add: resolve_def)

lemma resolve_console: "console (resolve v st) = console st"
  by (cases "settled st") (simp_all add: resolve_def)

lemma resolve_not_rejected: "settled st \<noteq> Rejected e \<Longrightarrow> settled (resolve v st) \<noteq> Rejected e"
  by (cases "settled st") (simp_all add: resolve_def)

lemma fail_not_rejected: "settled st \<noteq> Rejected e \<Longrightarrow> settled (fail m st) \<noteq> Rejected e"
  by (simp add: fail_def resolve_not_rejected)

lemma handle_event_not_rejected:
  "settled st \<noteq> Rejected e \<Longrightarrow> settled (handle_event p u st ev) \<noteq> Rejected e"
  by (cases ev)
     (auto simp: on_done_def on_timeout_def resolve_not_rejected fail_not_rejected
           split: option.splits)

lemma run_not_rejected:
  "settled st \<noteq> Rejected e \<Longrightarrow> settled (foldl (handle_event p u) st evs) \<noteq> Rejected e"
  by (induction evs arbitrary: st) (simp_all add: handle_event_not_rejected)

lemma resolve_fulfilled: "settled st = Fulfilled v \<Longrightarrow> settled (resolve w st) = Fulfilled v"
  by (simp add: resolve_def)

lemma handle_event_fulfilled:
  "settled st = Fulfilled v \<Longrightarrow> settled (handle_event p u st ev) = Fulfilled v"
  by (cases ev)
     (auto simp: on_done_def on_timeout_def fail_def resolve_fulfilled split: option.splits)

lemma run_fulfilled:
  "settled st = Fulfilled v \<Longrightarrow> settled (foldl (handle_event p u) st evs) = Fulfilled v"
  by (induction evs arbitrary: st) (simp_all add: handle_event_fulfilled)

lemma handle_event_skip: "\<not> terminal ev \<Longrightarrow> handle_event p u st ev = st"
  by (cases ev) (simp_all add: on_done_def)

lemma run_skip: "\<forall>e\<in>set evs. \<not> terminal e \<Longrightarrow> foldl (handle_event p u) st evs = st"
  by (induction evs arbitrary: st) (simp_all add: handle_event_skip)

lemma run_first_terminal:
  assumes "\<forall>e\<in>set pre. \<not> terminal e"
      and "settled (handle_event p u st ev) = Fulfilled v"
  shows "settled (foldl (handle_event p u) st (pre @ ev # post)) = Fulfilled v"
  using assms by (simp add: run_skip run_fulfilled)

lemma console_mono_event: "\<exists>ms. console (handle_event p u st ev) = console st @ ms"
  by (cases ev)
     (auto simp: on_done_def on_timeout_def fail_def resolve_console split: option.splits)

lemma console_mono: "\<exists>ms. console (foldl (handle_event p u) st evs) = console st @ ms"
proof (induction evs arbitrary: st)
  case Nil
  then show ?case by simp
next
  case (Cons ev evs)
  obtain m1 where m1: "console (handle_event p u st ev) = console st @ m1"
    using console_mono_event by blast
  obtain m2 where "console (foldl (handle_event p u) (handle_event p u st ev) evs)
      = console (handle_event p u st ev) @ m2"
    using Cons.IH by blast
  with m1 show ?case by simp
qed

lemma split_comma_no_comma: "CHR '','' \<notin> set s \<Longrightarrow> split_comma s = [s]"
  by (induction s) auto

lemma split_comma_append:
  "CHR '','' \<notin> set h \<Longrightarrow> split_comma (h @ CHR '','' # t) = h # split_comma t"
  by (induction h) auto

lemma split_comma_payload:
  "CHR '','' \<notin> set h \<Longrightarrow> CHR '','' \<notin> set t \<Longrightarrow>
   array_at (split_comma (h @ CHR '','' # t)) (Suc 0) = Some t"
  by (simp add: split_comma_append split_comma_no_comma)



lemma getAndEncode_run:
  "fetch_events cfg now net url = Inr evs \<Longrightarrow>
   getAndEncode cfg now net url
     = foldl (handle_event (placeholder_of cfg) (request_url cfg now url)) fetch_init evs"
  by (simp add: getAndEncode_def)

lemma getAndEncode_thrown:
  "fetch_events cfg now net url = Inl thrown \<Longrightarrow>
   settled (getAndEncode cfg now net url) = Rejected thrown"
  by (simp add: getAndEncode_def)

lemma getAndEncode_never_rejected:
  "fetch_events cfg now net url = Inr evs \<Longrightarrow>
   settled (getAndEncode cfg now net url) \<noteq> Rejected e"
  by (simp add: getAndEncode_run fetch_init_def run_not_rejected)

lemma getAndEncode_first:
  assumes "fetch_events cfg now net url = Inr (pre @ ev # post)"
      and "\<forall>e\<in>set pre. \<not> terminal e"
      and "settled (handle_event (placeholder_of cfg) (request_url cfg now url) fetch_init ev)
             = Fulfilled v"
  shows "settled (getAndEncode cfg now net url) = Fulfilled v"
  using assms(2,3) unfolding getAndEncode_run [OF assms(1)] by (rule run_first_terminal)

lemma success_event:
  "settled (on_done p u 4 200 (Some result) fetch_init)
     = Fulfilled (array_at (split_comma result) (Suc 0))"
  by (simp add: on_done_def resolve_def fetch_init_def)

lemma non_success_placeholder:
  "non_success ev \<Longrightarrow> handle_event (Some p) u fetch_init ev = resolve (Some p) fetch_init"
  by (cases ev) (simp_all add: non_success_def on_done_def on_timeout_def)

lemma non_success_fail:
  "non_success ev \<Longrightarrow> \<exists>m. handle_event None u fetch_init ev = fail m fetch_init"
  by (cases ev) (auto simp: non_success_def on_done_def on_timeout_def)

lemma settled_resolve_init: "settled (resolve v fetch_init) = Fulfilled v"
  by (simp add: resolve_def fetch_init_def)

lemma settled_fail_init: "settled (fail m fetch_init) = Fulfilled (Some [])"
  by (simp add: fail_def resolve_def fetch_init_def)

lemma console_fail: "console (fail m st) = console st @ [m]"
  by (simp add: fail_def resolve_console)

lemma getAndEncode_placeholder:
  assumes "fetch_events cfg now net url = Inr (pre @ ev # post)"
      and "\<forall>e\<in>set pre. \<not> terminal e" and "non_success ev"
      and "placeholder_of cfg = Some p"
  shows "settled (getAndEncode cfg now net url) = Fulfilled (Some p)"
  using assms(1,2)
  by (rule getAndEncode_first)
     (simp add: assms(4) non_success_placeholder [OF assms(3)] settled_resolve_init)

lemma getAndEncode_fail:
  assumes "fetch_events cfg now net url = Inr (pre @ ev # post)"
      and "\<forall>e\<in>set pre. \<not> terminal e" and "non_success ev"
      and "placeholder_of cfg = None"
  shows "settled (getAndEncode cfg now net url) = Fulfilled (Some [])"
proof -
  obtain m where "handle_event None (request_url cfg now url) fetch_init ev = fail m fetch_init"
    using non_success_fail [OF assms(3)] by blast
  then have "settled (handle_event (placeholder_of cfg) (request_url cfg now url) fetch_init ev)
      = Fulfilled (Some [])"
    by (simp add: assms(4) settled_fail_init)
  with assms(1,2) show ?thesis
    by (rule getAndEncode_first)
qed

lemma getAndEncode_fail_logged:
  assumes "fetch_events cfg now net url = Inr (pre @ ev # post)"
      and "\<forall>e\<in>set pre. \<not> terminal e" and "non_success ev"
      and "placeholder_of cfg = None"
  shows "console (getAndEncode cfg now net url) \<noteq> []"
proof -
  let ?h = "handle_event (placeholder_of cfg) (request_url cfg now url)"
  obtain m where m: "?h fetch_init ev = fail m fetch_init"
    using non_success_fail [OF assms(3)] assms(4) by auto
  obtain ms where "console (foldl ?h (?h fetch_init ev) post) = console (?h fetch_init ev) @ ms"
    using console_mono by blast
  then show ?thesis
    unfolding getAndEncode_run [OF assms(1)]
    by (simp add: run_skip [OF assms(2)] m console_fail)
qed

lemma split_comma_second:
  "CHR '','' \<notin> set h \<Longrightarrow> CHR '','' \<notin> set t \<Longrightarrow>
   array_at (split_comma (h @ CHR '','' # t @ CHR '','' # r)) (Suc 0) = Some t"
  by (simp add: split_comma_append)

lemma placeholder_of_payload:
  assumes "imagePlaceholder cfg = Some (header @ CHR '','' # payload)"
      and "CHR '','' \<notin> set header" and "CHR '','' \<notin> set payload" and "payload \<noteq> []"
  shows "placeholder_of cfg = Some payload"
  using assms by (simp add: placeholder_of_def split_comma_payload)

lemma placeholder_of_second:
  assumes "imagePlaceholder cfg = Some (header @ CHR '','' # payload @ CHR '','' # rest)"
      and "CHR '','' \<notin> set header" and "CHR '','' \<notin> set payload" and "payload \<noteq> []"
  shows "placeholder_of cfg = Some payload"
  using assms by (simp add: placeholder_of_def split_comma_second)

lemma placeholder_of_missing:
  assumes "imagePlaceholder cfg = None \<or>
           (\<exists>p. imagePlaceholder cfg = Some p \<and> CHR '','' \<notin> set p) \<or>
           (\<exists>header. imagePlaceholder cfg = Some (header @ '','') \<and> CHR '','' \<notin> set header) \<or>
           (\<exists>header rest. imagePlaceholder cfg = Some (header @ '',,'' @ rest) \<and>
                          CHR '','' \<notin> set header)"
  shows "placeholder_of cfg = None"
  using assms
  by (elim disjE exE conjE)
     (simp_all add: placeholder_of_def split_comma_no_comma split_comma_append)

text \<open>
  Claim C10 as stated fails: not every URL is settled successfully. What \<open>request.open\<close>
  throws on a URL it cannot parse, such as \<open>http://[\<close>, is thrown inside the executor of
  the promise, and the promise is rejected with it, with or without a placeholder.
\<close>

theorem getAndEncode_rejects_when_open_throws:
  "settled (getAndEncode with_placeholder 0 open_throws ''http://['') = Rejected ''SyntaxError'' \<and>
   settled (getAndEncode defaultOptions 0 open_throws ''http://['') = Rejected ''SyntaxError''"
  by (simp add: getAndEncode_def fetch_events_def open_throws_def request_url_def
        with_placeholder_def defaultOptions_def)

text \<open>
  Claim C10, amended. For a request that \<open>request.open\<close> and \<open>request.send\<close> accept, no
  event rejects the promise, and the first event that ends the request (the first timeout
  or ready-state 4) fulfils it, unless the status is 200 and the \<open>FileReader\<close> ends without
  a result: the promise then stays pending. On status 200 the promise is fulfilled with
  the second comma-separated piece of the encoded response (the base64 payload of
  a \<open>data:...;base64,\<close> URL). On a non-success
  status or a timeout it is fulfilled with the placeholder's payload when there is one:
  the text between the first and the second comma of the placeholder, or after the first
  comma when there is no second, when that text is not empty. When there is none (no
  placeholder, a placeholder without a comma, or nothing between its first comma and the
  second comma or the end), it is fulfilled with the empty string and an error is logged.
\<close>

theorem getAndEncode_resolves_once_opened:
  assumes trace: "fetch_events cfg now net url = Inr (pre @ ev # post)"
      and pre: "\<forall>e\<in>set pre. \<not> terminal e"
      and ev: "terminal ev"
  shows "(\<forall>e. settled (getAndEncode cfg now net url) \<noteq> Rejected e) \<and>
         (ev \<noteq> ReadyStateChange 4 200 None \<longrightarrow>
            (\<exists>v. settled (getAndEncode cfg now net url) = Fulfilled v)) \<and>
         (ev = ReadyStateChange 4 200 None \<and> (\<forall>e\<in>set post. \<not> terminal e) \<longrightarrow>
            settled (getAndEncode cfg now net url) = Pending) \<and>
         (\<forall>result. ev = ReadyStateChange 4 200 (Some result) \<longrightarrow>
            settled (getAndEncode cfg now net url)
              = Fulfilled (array_at (split_comma result) (Suc 0)) \<and>
            (\<forall>header payload. result = header @ CHR '','' # payload \<and>
                 CHR '','' \<notin> set header \<and> CHR '','' \<notin> set payload \<longrightarrow>
               settled (getAndEncode cfg now net url) = Fulfilled (Some payload))) \<and>
         (non_success ev \<longrightarrow>
            (\<forall>header payload rest.
               (imagePlaceholder cfg = Some (header @ CHR '','' # payload) \<or>
                imagePlaceholder cfg = Some (header @ CHR '','' # payload @ CHR '','' # rest)) \<and>
               CHR '','' \<notin> set header \<and> CHR '','' \<notin> set payload \<and> payload \<noteq> [] \<longrightarrow>
               settled (getAndEncode cfg now net url) = Fulfilled (Some payload)) \<and>
            (imagePlaceholder cfg = None \<or>
             (\<exists>p. imagePlaceholder cfg = Some p \<and> CHR '','' \<notin> set p) \<or>
             (\<exists>header. imagePlaceholder cfg = Some (header @ '','') \<and>
                       CHR '','' \<notin> set header) \<or>
             (\<exists>header rest. imagePlaceholder cfg = Some (header @ '',,'' @ rest) \<and>
                            CHR '','' \<notin> set header) \<longrightarrow>
               settled (getAndEncode cfg now net url) = Fulfilled (Some []) \<and>
               console (getAndEncode cfg now net url) \<noteq> []))"
proof (intro conjI allI impI; (elim conjE)?)
  fix e show "settled (getAndEncode cfg now net url) \<noteq> Rejected e"
    using trace by (rule getAndEncode_never_rejected)
next
  assume read: "ev \<noteq> ReadyStateChange 4 200 None"
  show "\<exists>v. settled (getAndEncode cfg now net url) = Fulfilled v"
  proof (cases "non_success ev")
    case True
    show ?thesis
    proof (cases "placeholder_of cfg")
      case None
      with trace pre True have "settled (getAndEncode cfg now net url) = Fulfilled (Some [])"
        by (rule getAndEncode_fail)
      then show ?thesis by blast
    next
      case (Some p)
      with trace pre True have "settled (getAndEncode cfg now net url) = Fulfilled (Some p)"
        by (rule getAndEncode_placeholder)
      then show ?thesis by blast
    qed
  next
    case False
    with ev read obtain result where "ev = ReadyStateChange 4 200 (Some result)"
      by (cases ev) (auto simp: non_success_def)
    then have "settled (handle_event (placeholder_of cfg) (request_url cfg now url) fetch_init ev)
        = Fulfilled (array_at (split_comma result) (Suc 0))"
      by (simp add: success_event)
    with trace pre have "settled (getAndEncode cfg now net url)
        = Fulfilled (array_at (split_comma result) (Suc 0))"
      by (rule getAndEncode_first)
    then show ?thesis by blast
  qed
next
  assume "ev = ReadyStateChange 4 200 None" and "\<forall>e\<in>set post. \<not> terminal e"
  then show "settled (getAndEncode cfg now net url) = Pending"
    unfolding getAndEncode_run [OF trace]
    by (simp add: run_skip [OF pre] run_skip on_done_def fetch_init_def)
next
  fix result
  assume "ev = ReadyStateChange 4 200 (Some result)"
  then have "settled (handle_event (placeholder_of cfg) (request_url cfg now url) fetch_init ev)
      = Fulfilled (array_at (split_comma result) (Suc 0))"
    by (simp add: success_event)
  with trace pre show ok: "settled (getAndEncode cfg now net url)
      = Fulfilled (array_at (split_comma result) (Suc 0))"
    by (rule getAndEncode_first)
  fix header payload
  assume "result = header @ CHR '','' # payload"
     and "CHR '','' \<notin> set header" and "CHR '','' \<notin> set payload"
  then show "settled (getAndEncode cfg now net url) = Fulfilled (Some payload)"
    using ok by (simp add: split_comma_payload)
next
  fix header payload rest
  assume bad: "non_success ev"
     and shape: "imagePlaceholder cfg = Some (header @ CHR '','' # payload) \<or>
        imagePlaceholder cfg = Some (header @ CHR '','' # payload @ CHR '','' # rest)"
     and rest: "CHR '','' \<notin> set header" "CHR '','' \<notin> set payload" "payload \<noteq> []"
  have "placeholder_of cfg = Some payload"
    using shape placeholder_of_payload [OF _ rest] placeholder_of_second [OF _ rest] by blast
  with trace pre bad show "settled (getAndEncode cfg now net url) = Fulfilled (Some payload)"
    by (rule getAndEncode_placeholder)
next
  assume bad: "non_success ev"
     and missing: "imagePlaceholder cfg = None \<or>
          (\<exists>p. imagePlaceholder cfg = Some p \<and> CHR '','' \<notin> set p) \<or>
          (\<exists>header. imagePlaceholder cfg = Some (header @ '','') \<and> CHR '','' \<notin> set header) \<or>
          (\<exists>header rest. imagePlaceholder cfg = Some (header @ '',,'' @ rest) \<and>
                         CHR '','' \<notin> set header)"
  from missing have none: "placeholder_of cfg = None"
    by (rule placeholder_of_missing)
  from trace pre bad none show "settled (getAndEncode cfg now net url) = Fulfilled (Some [])"
    by (rule getAndEncode_fail)
  from trace pre bad none show "console (getAndEncode cfg now net url) \<noteq> []"
    by (rule getAndEncode_fail_logged)
qed

theorem getAndEncode_resolves_once_opened_witness:
  "settled (getAndEncode with_placeholder 0 not_found ''a.png'') = Fulfilled (Some ''AAAA'') \<and>
   settled (getAndEncode defaultOptions 0 not_found ''a.png'') = Fulfilled (Some []) \<and>
   console (getAndEncode defaultOptions 0 not_found ''a.png'') \<noteq> [] \<and>
   settled (getAndEncode with_placeholder 0 found_png ''a.png'') = Fulfilled (Some ''QUJD'')"
proof -
  have nf: "fetch_events cfg 0 not_found ''a.png'' = Inr ([] @ ReadyStateChange 4 404 None # [])"
    for cfg :: impl_options
    by (simp add: fetch_events_def not_found_def)
  have ok: "fetch_events with_placeholder 0 found_png ''a.png''
      = Inr ([ReadyStateChange 2 200 None, ReadyStateChange 3 200 None]
             @ ReadyStateChange 4 200 (Some ''data:image/png;base64,QUJD'') # [])"
    by (simp add: fetch_events_def found_png_def)
  have bad: "non_success (ReadyStateChange 4 404 None)"
    by (simp add: non_success_def)
  have "\<forall>header payload rest.
      (imagePlaceholder with_placeholder = Some (header @ CHR '','' # payload) \<or>
       imagePlaceholder with_placeholder = Some (header @ CHR '','' # payload @ CHR '','' # rest)) \<and>
      CHR '','' \<notin> set header \<and> CHR '','' \<notin> set payload \<and> payload \<noteq> [] \<longrightarrow>
      settled (getAndEncode with_placeholder 0 not_found ''a.png'') = Fulfilled (Some payload)"
    using getAndEncode_resolves_once_opened [OF nf [of with_placeholder]] bad by simp
  from this [rule_format, of "''data:image/png;base64''" "''AAAA''" "[]"]
  have "settled (getAndEncode with_placeholder 0 not_found ''a.png'') = Fulfilled (Some ''AAAA'')"
    by (simp add: with_placeholder_def)
  moreover have "settled (getAndEncode defaultOptions 0 not_found ''a.png'') = Fulfilled (Some []) \<and>
      console (getAndEncode defaultOptions 0 not_found ''a.png'') \<noteq> []"
    using getAndEncode_resolves_once_opened [OF nf [of defaultOptions]] bad
    by (simp add: defaultOptions_def)
  moreover have "settled (getAndEncode with_placeholder 0 found_png ''a.png'')
      = Fulfilled (Some ''QUJD'')"
    using getAndEncode_resolves_once_opened [OF ok] by simp
  ultimately show ?thesis
    by blast
qed

text \<open>
  Claim C7. A request that times out and a request that ends with a status other than 200
  settle the promise with the same value: the placeholder's payload when one is
  configured (for a placeholder with a single comma, the text after the comma), and
  otherwise both handlers call \<open>fail\<close>, which fulfils the promise with the empty string.
\<close>

theorem timeout_behaves_as_non_success:
  assumes pre: "\<forall>e\<in>set pre. \<not> terminal e"
      and status: "status \<noteq> 200"
      and timed_out: "fetch_events cfg now net_t url = Inr (pre @ TimeoutEvent # post_t)"
      and refused: "fetch_events cfg now net_s url
                      = Inr (pre @ ReadyStateChange 4 status encoded # post_s)"
  shows "settled (getAndEncode cfg now net_t url) = settled (getAndEncode cfg now net_s url) \<and>
         (\<forall>p. placeholder_of cfg = Some p \<longrightarrow>
            settled (getAndEncode cfg now net_t url) = Fulfilled (Some p) \<and>
            settled (getAndEncode cfg now net_s url) = Fulfilled (Some p)) \<and>
         (placeholder_of cfg = None \<longrightarrow>
            (\<exists>m. on_timeout None (request_url cfg now url) fetch_init = fail m fetch_init) \<and>
            (\<exists>m. on_done None (request_url cfg now url) 4 status encoded fetch_init
                   = fail m fetch_init) \<and>
            settled (getAndEncode cfg now net_t url) = Fulfilled (Some []) \<and>
            settled (getAndEncode cfg now net_s url) = Fulfilled (Some [])) \<and>
         (\<forall>header payload. imagePlaceholder cfg = Some (header @ CHR '','' # payload) \<and>
              CHR '','' \<notin> set header \<and> CHR '','' \<notin> set payload \<and> payload \<noteq> [] \<longrightarrow>
            placeholder_of cfg = Some payload)"
proof -
  have t: "non_success TimeoutEvent" and s: "non_success (ReadyStateChange 4 status encoded)"
    using status by (simp_all add: non_success_def)
  have ph: "settled (getAndEncode cfg now net_t url) = Fulfilled (Some p) \<and>
            settled (getAndEncode cfg now net_s url) = Fulfilled (Some p)"
    if "placeholder_of cfg = Some p" for p
    using getAndEncode_placeholder [OF timed_out pre t that]
          getAndEncode_placeholder [OF refused pre s that] by simp
  have no: "settled (getAndEncode cfg now net_t url) = Fulfilled (Some []) \<and>
            settled (getAndEncode cfg now net_s url) = Fulfilled (Some [])"
    if "placeholder_of cfg = None"
    using getAndEncode_fail [OF timed_out pre t that]
          getAndEncode_fail [OF refused pre s that] by simp
  have same: "settled (getAndEncode cfg now net_t url) = settled (getAndEncode cfg now net_s url)"
    using ph no by (cases "placeholder_of cfg") simp_all
  have branch_t: "\<exists>m. on_timeout None (request_url cfg now url) fetch_init = fail m fetch_init"
    by (auto simp: on_timeout_def)
  have branch_s: "\<exists>m. on_done None (request_url cfg now url) 4 status encoded fetch_init
                   = fail m fetch_init"
    using status by (auto simp: on_done_def)
  show ?thesis
    using same ph no branch_t branch_s placeholder_of_payload by blast
qed

theorem timeout_behaves_as_non_success_witness:
  "settled (getAndEncode (defaultOptions\<lparr>imagePlaceholder := Some ''data:image/png;base64,AAAA''\<rparr>) 0
      (\<lambda>u c. Inr [ReadyStateChange 2 0 None, TimeoutEvent]) ''a.png'') = Fulfilled (Some ''AAAA'') \<and>
   settled (getAndEncode (defaultOptions\<lparr>imagePlaceholder := Some ''data:image/png;base64,AAAA''\<rparr>) 0
      (\<lambda>u c. Inr [ReadyStateChange 2 0 None, ReadyStateChange 4 404 None]) ''a.png'')
     = Fulfilled (Some ''AAAA'')"
  using timeout_behaves_as_non_success
    [where pre = "[ReadyStateChange 2 0 None]" and status = 404 and encoded = "None"
       and cfg = "defaultOptions\<lparr>imagePlaceholder := Some ''data:image/png;base64,AAAA''\<rparr>"
       and now = 0 and url = "''a.png''" and post_t = "[]" and post_s = "[]"
       and net_t = "\<lambda>u c. Inr [ReadyStateChange 2 0 None, TimeoutEvent]"
       and net_s = "\<lambda>u c. Inr [ReadyStateChange 2 0 None, ReadyStateChange 4 404 None]"]
  by (simp add: placeholder_of_def defaultOptions_def fetch_events_def)

lemma image_inline_fulfilled:
  assumes "image_src h element = url" and "\<not> isDataUrl url"
      and "get url = Fulfilled data"
  shows "image_inline h get element
           = Fulfilled (setAttribute ''src'' (dataAsUrl data (mimeType h url)) element)"
  using assms by (simp add: image_inline_def)

text \<open>
  Claim C1 against the code. When the request ends in a non-success status or a timeout
  and no placeholder is configured, \<open>fail\<close> logs the message and fulfils the promise with
  the empty string: the fetch does not reject, and the image that asked for it gets an
  empty data URL as its source, so nothing propagates to the conversion.
\<close>

theorem fetch_failure_does_not_reject:
  assumes trace: "fetch_events cfg now net url = Inr (pre @ ev # post)"
      and pre: "\<forall>e\<in>set pre. \<not> terminal e"
      and ev: "non_success ev"
      and none: "placeholder_of cfg = None"
  shows "settled (getAndEncode cfg now net url) = Fulfilled (Some []) \<and>
         (\<forall>e. settled (getAndEncode cfg now net url) \<noteq> Rejected e) \<and>
         (image_src h element = url \<and> \<not> isDataUrl url \<longrightarrow>
            image_inline h (util_get cfg now net) element
              = Fulfilled (setAttribute ''src'' (dataAsUrl (Some []) (mimeType h url)) element))"
proof -
  have empty: "settled (getAndEncode cfg now net url) = Fulfilled (Some [])"
    using trace pre ev none by (rule getAndEncode_fail)
  then have "util_get cfg now net url = Fulfilled (Some [])"
    by (simp add: util_get_def)
  then have "image_inline h (util_get cfg now net) element
      = Fulfilled (setAttribute ''src'' (dataAsUrl (Some []) (mimeType h url)) element)"
    if "image_src h element = url" "\<not> isDataUrl url"
    using that image_inline_fulfilled by simp
  with empty show ?thesis
    by simp
qed

lemma mimeType_png: "mimeType h ''http://localhost/a.png'' = ''image/png''"
  by (simp add: mimeType_def toLowerCase_def lower_char_def mimes_def)

theorem fetch_failure_does_not_reject_witness:
  "image_src sample_host img_a = ''http://localhost/a.png'' \<and>
   settled (getAndEncode defaultOptions 0 not_found ''http://localhost/a.png'')
     = Fulfilled (Some []) \<and>
   image_inline sample_host (util_get defaultOptions 0 not_found) img_a
     = Fulfilled (CNode \<lparr> origin = Some 1, ckind = Image, ctag = ''img'',
                          cattrs = [(''src'', ''data:image/png;base64,'')], cstyle = [],
                          ctext = [] \<rparr> [])"
  using fetch_failure_does_not_reject
    [where cfg = defaultOptions and now = 0 and net = not_found
       and url = "''http://localhost/a.png''"
       and pre = "[]" and ev = "ReadyStateChange 4 404 None" and post = "[]"
       and element = img_a and h = sample_host]
  by (simp add: fetch_events_def not_found_def non_success_def placeholder_of_def
        defaultOptions_def img_a_def image_src_def sample_host_def isDataUrl_def dataAsUrl_def
        text_of_def mimeType_png)

section \<open>Properties of the options and the dimensions\<close>

lemma px_1: "parseFloat ''1'' = Fin 1"
  by code_simp

lemma px_2: "parseFloat ''2'' = Fin 2"
  by code_simp

text \<open>
  Claim C5. A node with scroll width 200, scroll height 100, left and right borders of
  1px, top and bottom borders of 2px and no explicit width or height in the options gets
  a container of 202 by 104.
\<close>

theorem container_size_example:
  assumes "scrollWidth (info n) = 200" and "scrollHeight (info n) = 100"
      and "getPropertyValue (computed (info n)) ''border-left-width'' = ''1px''"
      and "getPropertyValue (computed (info n)) ''border-right-width'' = ''1px''"
      and "getPropertyValue (computed (info n)) ''border-top-width'' = ''2px''"
      and "getPropertyValue (computed (info n)) ''border-bottom-width'' = ''2px''"
      and "width options = None" and "height options = None"
  shows "svg_width options n = Fin 202 \<and> svg_height options n = Fin 104 \<and>
         util_width n = Fin 202 \<and> util_height n = Fin 104"
  using assms by (simp add: svg_width_def svg_height_def util_width_def util_height_def px_def px_1 px_2)

theorem container_size_example_witness:
  "svg_width empty_options bordered_box = Fin 202 \<and>
   svg_height empty_options bordered_box = Fin 104"
  using container_size_example [of bordered_box empty_options]
  by (simp add: bordered_box_def blank_def no_style_def empty_options_def getPropertyValue_def)

text \<open>
  Claim C4 as stated fails: with an explicit width of 50 on a box whose scroll-box width is
  202 the container is 50 wide, not the larger of the two.
\<close>

theorem explicit_width_smaller_than_box:
  "svg_width (empty_options\<lparr>width := Some (Fin 50)\<rparr>) bordered_box = Fin 50 \<and>
   spec_larger (width (empty_options\<lparr>width := Some (Fin 50)\<rparr>)) (util_width bordered_box) = Fin 202"
  by (simp add: svg_width_def spec_larger_def util_width_def px_def bordered_box_def blank_def
        no_style_def empty_options_def getPropertyValue_def px_1)

text \<open>
  Claim C4, amended. In each dimension the container has the explicitly requested size
  when one is given and is neither zero nor \<open>NaN\<close>, and the scroll-box size (scroll size plus
  the two border widths) otherwise; the canvas has that size times the scale. The size is
  the larger of the two when the explicit one is at least the scroll-box size.
\<close>

theorem container_size_explicit_or_box:
  "(width options = None \<longrightarrow> svg_width options n = util_width n) \<and>
   (\<forall>w. width options = Some w \<and> truthy_num w \<longrightarrow> svg_width options n = w) \<and>
   (\<forall>w. width options = Some w \<and> \<not> truthy_num w \<longrightarrow> svg_width options n = util_width n) \<and>
   (height options = None \<longrightarrow> svg_height options n = util_height n) \<and>
   (\<forall>h. height options = Some h \<and> truthy_num h \<longrightarrow> svg_height options n = h) \<and>
   (\<forall>h. height options = Some h \<and> \<not> truthy_num h \<longrightarrow> svg_height options n = util_height n) \<and>
   canvas_width options n = js_mul (svg_width options n) (draw_scale options) \<and>
   canvas_height options n = js_mul (svg_height options n) (draw_scale options) \<and>
   (\<forall>w b. width options = Some (Fin w) \<and> util_width n = Fin b \<and> b \<le> w \<and> w \<noteq> 0 \<longrightarrow>
      svg_width options n = spec_larger (width options) (util_width n)) \<and>
   (\<forall>h b. height options = Some (Fin h) \<and> util_height n = Fin b \<and> b \<le> h \<and> h \<noteq> 0 \<longrightarrow>
      svg_height options n = spec_larger (height options) (util_height n))"
  by (auto simp: svg_width_def svg_height_def canvas_width_def canvas_height_def spec_larger_def)

theorem container_size_explicit_or_box_witness:
  "svg_width (empty_options\<lparr>width := Some (Fin 50)\<rparr>) bordered_box = Fin 50 \<and>
   svg_height (empty_options\<lparr>width := Some (Fin 50)\<rparr>) bordered_box = util_height bordered_box"
  using container_size_explicit_or_box
    [of "empty_options\<lparr>width := Some (Fin 50)\<rparr>" bordered_box]
  by (simp add: empty_options_def)



section \<open>Properties of the Snapshot Cloner\<close>





























lemma base36_sample: "to_base 36 12345 = ''9ix''"
  by (simp add: to_base.simps digit_char_def)

lemma show_nat_0: "show_nat 0 = ''0''"
  by (simp add: show_nat_def to_base.simps digit_char_def)

lemma uid_sample: "fst (uid sample_host fresh_state) = ''u09ix0''"
  by (simp add: uid_def fourRandomChars_def sample_host_def fresh_state_def base36_sample
        show_nat_0)

text \<open>
  Claim C3 against the code. A pseudo-element whose content is empty or \<open>none\<close> leaves the
  clone as it is. Otherwise one style element with the synthesized rule is appended, but
  the synthesized class name is added only to a \<open>class\<close> attribute that exists and is not
  empty: a clone without one keeps its attributes, and the rule names a class no element
  has.
\<close>

theorem pseudo_element_class_only_extended:
  "(getPropertyValue (pseudo_style original element) ''content'' = [] \<or>
    getPropertyValue (pseudo_style original element) ''content'' = ''none'' \<longrightarrow>
      clonePseudoElement h original element (CNode ci cs) st = (CNode ci cs, st)) \<and>
   (getPropertyValue (pseudo_style original element) ''content'' \<noteq> [] \<and>
    getPropertyValue (pseudo_style original element) ''content'' \<noteq> ''none'' \<longrightarrow>
      fst (clonePseudoElement h original element (CNode ci cs) st)
        = CNode (ci\<lparr>cattrs :=
                   (case map_of (cattrs ci) ''class'' of
                      None \<Rightarrow> cattrs ci
                    | Some currentClass \<Rightarrow>
                        if currentClass = [] then cattrs ci
                        else set_assoc ''class'' (currentClass @ '' '' @ fst (uid h st))
                               (cattrs ci))\<rparr>)
            (cs @ [appendChild (createElement ''style'')
                     (formatPseudoElementStyle (fst (uid h st)) element
                        (pseudo_style original element))]))"
  by (auto simp: clonePseudoElement_def Let_def split: prod.splits option.splits)

theorem pseudo_element_class_only_extended_witness:
  "fst (clonePseudoElement sample_host before_page '':before'' (shallow_copy before_page) fresh_state)
     = CNode \<lparr> origin = Some 0, ckind = Element, ctag = ''div'', cattrs = [], cstyle = [],
               ctext = [] \<rparr>
         [CNode \<lparr> origin = None, ckind = Element, ctag = ''style'', cattrs = [], cstyle = [],
                  ctext = [] \<rparr>
            [CNode \<lparr> origin = None, ckind = NonElement, ctag = ''#text'', cattrs = [],
                     cstyle = [], ctext = ''.u09ix0::before{content: '' @ [CHR 0x22, CHR ''x'', CHR 0x22] @ '';}'' \<rparr> []]]"
proof -
  let ?ci = "\<lparr> origin = Some 0, ckind = Element, ctag = ''div'', cattrs = [], cstyle = [],
               ctext = [] \<rparr>"
  have copy: "shallow_copy before_page = CNode ?ci []"
    by (simp add: shallow_copy_def before_page_def blank_def)
  have content: "getPropertyValue (pseudo_style before_page '':before'') ''content''
      = [CHR 0x22, CHR ''x'', CHR 0x22]"
    by code_simp
  have rule: "appendChild (createElement ''style'')
        (formatPseudoElementStyle ''u09ix0'' '':before''
           (pseudo_style before_page '':before''))
      = CNode \<lparr> origin = None, ckind = Element, ctag = ''style'', cattrs = [], cstyle = [],
                  ctext = [] \<rparr>
            [CNode \<lparr> origin = None, ckind = NonElement, ctag = ''#text'', cattrs = [],
                     cstyle = [], ctext = ''.u09ix0::before{content: '' @ [CHR 0x22, CHR ''x'', CHR 0x22] @ '';}'' \<rparr> []]"
    by code_simp
  from pseudo_element_class_only_extended
      [of before_page "'':before''" sample_host ?ci "[]" fresh_state]
  have "fst (clonePseudoElement sample_host before_page '':before'' (CNode ?ci []) fresh_state)
      = CNode (?ci\<lparr>cattrs := []\<rparr>)
          ([] @ [appendChild (createElement ''style'')
                   (formatPseudoElementStyle (fst (uid sample_host fresh_state)) '':before''
                      (pseudo_style before_page '':before''))])"
    unfolding content by simp
  then show ?thesis
    unfolding copy uid_sample rule by simp
qed


section \<open>Properties of the CSS Reference Inliner\<close>

lemma literal_of_plain:
  "\<not> special c \<Longrightarrow> literal_of (c # t) = map_option ((#) c) (literal_of t)"
  by (cases t) (auto simp: special_def)

lemma literal_of_escape: "literal_of (escape s) = Some s"
  by (induction s) (simp_all add: literal_of_plain)

lemma shouldProcess_scan: "shouldProcess s = (scan_urls s \<noteq> [])"
  by (induction s rule: scan_urls.induct) (auto split: option.splits)

lemma inlineAll_no_external: "readUrls s = [] \<Longrightarrow> inlineAll h get s baseUrl = Fulfilled s"
  by (simp add: inlineAll_def)

text \<open>
  Claim C6. \<open>inlineAll\<close> returns the text unchanged when the text has no \<open>url(...)\<close> match
  at all, and when every \<open>url(...)\<close> match in it is a \<open>data:\<close> URL.
\<close>

theorem inlineAll_identity:
  "(\<not> shouldProcess s \<longrightarrow> inlineAll h get s baseUrl = Fulfilled s) \<and>
   (scan_urls s = [] \<longrightarrow> inlineAll h get s baseUrl = Fulfilled s) \<and>
   ((\<forall>url\<in>set (scan_urls s). isDataUrl url) \<longrightarrow> inlineAll h get s baseUrl = Fulfilled s)"
proof (intro conjI impI)
  assume "\<not> shouldProcess s"
  then show "inlineAll h get s baseUrl = Fulfilled s"
    by (simp add: inlineAll_def)
next
  assume "scan_urls s = []"
  then show "inlineAll h get s baseUrl = Fulfilled s"
    by (simp add: inlineAll_def shouldProcess_scan)
next
  assume "\<forall>url\<in>set (scan_urls s). isDataUrl url"
  then have "readUrls s = []"
    by (simp add: readUrls_def)
  then show "inlineAll h get s baseUrl = Fulfilled s"
    by (rule inlineAll_no_external)
qed

theorem inlineAll_identity_witness:
  "inlineAll sample_host get_abc ''color: red'' None = Fulfilled ''color: red'' \<and>
   scan_urls ''url(data:image/png;base64,QUJD)'' = [''data:image/png;base64,QUJD''] \<and>
   inlineAll sample_host get_abc ''url(data:image/png;base64,QUJD)'' None
     = Fulfilled ''url(data:image/png;base64,QUJD)''"
proof -
  have a: "\<not> shouldProcess ''color: red''"
    by (simp add: match_url_def)
  have b: "scan_urls ''url(data:image/png;base64,QUJD)'' = [''data:image/png;base64,QUJD'']"
    by (simp add: match_url_def after_open_def is_quote_def)
  have c: "\<forall>url\<in>set (scan_urls ''url(data:image/png;base64,QUJD)''). isDataUrl url"
    unfolding b by (simp add: isDataUrl_def)
  show ?thesis
    using inlineAll_identity [of "''color: red''" sample_host get_abc None]
      inlineAll_identity [of "''url(data:image/png;base64,QUJD)''" sample_host get_abc None]
      a b c by simp
qed

lemma quote_opt_cases: "quote_opt q \<Longrightarrow> q = [] \<or> (\<exists>c. q = [c] \<and> is_quote c)"
  by (auto simp: quote_opt_def split: list.splits)

lemma not_quote_close [simp]: "\<not> is_quote CHR '')''"
  by (simp add: is_quote_def)

lemma url_body_Some:
  "url_body g s = Some (g', q', rest) \<Longrightarrow>
   \<exists>b. g' = g @ b \<and> s = b @ q' @ CHR '')'' # rest \<and>
       (\<forall>c\<in>set b. \<not> is_quote c \<and> c \<noteq> CHR '')'') \<and> quote_opt q'"
proof (induction g s rule: url_body.induct)
  case (1 g)
  then show ?case by simp
next
  case (2 g c cs)
  show ?case
  proof (cases "is_quote c")
    case True
    with "2.prems" show ?thesis
      by (auto simp: quote_opt_def split: list.splits if_splits)
  next
    case False
    show ?thesis
    proof (cases "c = CHR '')''")
      case True
      with False "2.prems" show ?thesis by (auto simp: quote_opt_def)
    next
      case notclose: False
      with False "2.prems" have "url_body (g @ [c]) cs = Some (g', q', rest)"
        by simp
      from "2.IH" [OF False notclose this] obtain b where
        "g' = (g @ [c]) @ b" "cs = b @ q' @ CHR '')'' # rest"
        "\<forall>c\<in>set b. \<not> is_quote c \<and> c \<noteq> CHR '')''" "quote_opt q'"
        by blast
      with False notclose show ?thesis
        by (intro exI [of _ "c # b"]) simp
    qed
  qed
qed

lemma url_body_run:
  "(\<forall>c\<in>set b. \<not> is_quote c \<and> c \<noteq> CHR '')'') \<Longrightarrow> quote_opt q' \<Longrightarrow>
   url_body g (b @ q' @ CHR '')'' # rest) = Some (g @ b, q', rest)"
proof (induction b arbitrary: g)
  case Nil
  then show ?case
    by (auto dest!: quote_opt_cases)
next
  case (Cons a b)
  then show ?case by simp
qed

lemma after_open_Some:
  assumes "after_open r = Some (q, g, q', rest)"
  shows "r = q @ g @ q' @ CHR '')'' # rest \<and> wf_ref q g q'"
proof -
  let ?q = "(case r of [] \<Rightarrow> [] | c # cs \<Rightarrow> if is_quote c then [c] else [])"
  have q: "q = ?q" and qo: "quote_opt ?q" and pre: "r = ?q @ drop (length ?q) r"
    using assms
    by (auto simp: after_open_def Let_def quote_opt_def split: list.splits if_splits)
  from assms obtain c cs where r': "drop (length ?q) r = c # cs" and nq: "\<not> is_quote c"
      and body: "url_body [c] cs = Some (g, q', rest)"
    by (auto simp: after_open_def Let_def split: list.splits if_splits)
  from url_body_Some [OF body] obtain b where b: "g = [c] @ b" "cs = b @ q' @ CHR '')'' # rest"
      "\<forall>c\<in>set b. \<not> is_quote c \<and> c \<noteq> CHR '')''" "quote_opt q'"
    by blast
  have "wf_group g"
    using b nq by (auto simp: wf_group_def)
  moreover have "r = q @ g @ q' @ CHR '')'' # rest"
    using pre r' b q by simp
  ultimately show ?thesis
    using qo q b(4) by (simp add: wf_ref_def)
qed

lemma match_url_Some:
  assumes "match_url s = Some (q, g, q', rest)"
  shows "s = ''url('' @ q @ g @ q' @ CHR '')'' # rest \<and> wf_ref q g q'"
proof -
  from assms have t: "take 4 s = ''url(''" and ao: "after_open (drop 4 s) = Some (q, g, q', rest)"
    by (auto simp: match_url_def split: if_splits)
  have "s = take 4 s @ drop 4 s" by simp
  with t after_open_Some [OF ao] show ?thesis
    by metis
qed

lemma after_open_ref:
  assumes "wf_ref q g q'"
  shows "after_open (q @ g @ q' @ CHR '')'' # rest) = Some (q, g, q', rest)"
proof -
  from assms obtain c b where g: "g = c # b" and c: "\<not> is_quote c"
      and b: "\<forall>c\<in>set b. \<not> is_quote c \<and> c \<noteq> CHR '')''" and q': "quote_opt q'"
    by (cases g) (auto simp: wf_ref_def wf_group_def)
  have body: "url_body [c] (b @ q' @ CHR '')'' # rest) = Some ([c] @ b, q', rest)"
    using b q' by (rule url_body_run)
  from assms have "quote_opt q" by (simp add: wf_ref_def)
  then consider "q = []" | qc where "q = [qc]" "is_quote qc"
    by (auto dest: quote_opt_cases)
  then show ?thesis
  proof cases
    case 1
    with g c body show ?thesis by (simp add: after_open_def)
  next
    case 2
    with g c body show ?thesis by (simp add: after_open_def)
  qed
qed

lemma match_url_ref:
  "wf_ref q g q' \<Longrightarrow> match_url (''url('' @ q @ g @ q' @ CHR '')'' # rest) = Some (q, g, q', rest)"
  using after_open_ref [of q g q' rest] by (simp add: match_url_def)

lemma close_ref_Some:
  "close_ref t = Some (g3, rest) \<Longrightarrow> \<exists>q'. quote_opt q' \<and> g3 = q' @ '')'' \<and> t = g3 @ rest"
  by (auto simp: close_ref_def quote_opt_def split: list.splits if_splits)

lemma close_ref_run: "quote_opt q' \<Longrightarrow> close_ref (q' @ CHR '')'' # rest) = Some (q' @ '')'', rest)"
  by (auto simp: close_ref_def dest!: quote_opt_cases)

lemma after_url_Some:
  assumes "after_url u t = Some (g3, rest)"
  shows "\<exists>q'. quote_opt q' \<and> g3 = q' @ '')'' \<and> t = u @ g3 @ rest"
proof -
  from assms have u: "take (length u) t = u"
      and c: "close_ref (drop (length u) t) = Some (g3, rest)"
    by (auto simp: after_url_def split: if_splits)
  from close_ref_Some [OF c] obtain q' where "quote_opt q'" "g3 = q' @ '')''"
      "drop (length u) t = g3 @ rest"
    by blast
  moreover have "t = take (length u) t @ drop (length u) t" by simp
  ultimately show ?thesis using u by metis
qed

lemma after_url_run:
  "quote_opt q' \<Longrightarrow> after_url u (u @ q' @ CHR '')'' # rest) = Some (q' @ '')'', rest)"
  by (simp add: after_url_def close_ref_run)

lemma match_ref_Some:
  assumes "match_ref u s = Some (g1, g3, rest)"
  shows "\<exists>q q'. quote_opt q \<and> quote_opt q' \<and> g1 = ''url('' @ q \<and> g3 = q' @ '')'' \<and>
           s = ''url('' @ q @ u @ q' @ CHR '')'' # rest"
proof -
  from assms have t: "take 4 s = ''url(''"
    by (auto simp: match_ref_def split: if_splits)
  have s: "s = ''url('' @ drop 4 s"
    using t append_take_drop_id [of 4 s] by simp
  from assms t consider
      (quoted) c cs where "drop 4 s = c # cs" "is_quote c" "g1 = ''url('' @ [c]"
        "after_url u cs = Some (g3, rest)"
    | (bare) "g1 = ''url(''" "after_url u (drop 4 s) = Some (g3, rest)"
    by (auto simp: match_ref_def Let_def split: if_splits list.splits option.splits)
  then show ?thesis
  proof cases
    case quoted
    from after_url_Some [OF quoted(4)] obtain q' where "quote_opt q'" "g3 = q' @ '')''"
        "cs = u @ g3 @ rest"
      by blast
    with quoted s show ?thesis
      by (intro exI [of _ "[c]"] exI [of _ q']) (simp add: quote_opt_def)
  next
    case bare
    from after_url_Some [OF bare(2)] obtain q' where "quote_opt q'" "g3 = q' @ '')''"
        "drop 4 s = u @ g3 @ rest"
      by blast
    with bare s show ?thesis
      by (intro exI [of _ "[]"] exI [of _ q']) (simp add: quote_opt_def)
  qed
qed

lemma match_ref_imp_url:
  assumes "wf_group u" and "match_ref u s = Some (g1, g3, rest)"
  shows "\<exists>q q'. match_url s = Some (q, u, q', rest) \<and> g1 = ''url('' @ q \<and> g3 = q' @ '')''"
proof -
  from match_ref_Some [OF assms(2)] obtain q q' where q: "quote_opt q" "quote_opt q'"
      and g: "g1 = ''url('' @ q" "g3 = q' @ '')''"
      and s: "s = ''url('' @ q @ u @ q' @ CHR '')'' # rest"
    by blast
  have "wf_ref q u q'"
    using q assms(1) by (simp add: wf_ref_def)
  from match_url_ref [OF this, of rest] s g show ?thesis
    by blast
qed

lemma match_url_imp_ref:
  assumes "match_url s = Some (q, u, q', rest)"
  shows "match_ref u s = Some (''url('' @ q, q' @ '')'', rest)"
proof -
  from match_url_Some [OF assms] have s: "s = ''url('' @ q @ u @ q' @ CHR '')'' # rest"
      and wf: "wf_ref q u q'"
    by simp_all
  from wf have q': "quote_opt q'" and "quote_opt q"
    by (simp_all add: wf_ref_def)
  from wf obtain c b where u: "u = c # b" and c: "\<not> is_quote c"
    by (cases u) (auto simp: wf_ref_def wf_group_def)
  from \<open>quote_opt q\<close> consider "q = []" | qc where "q = [qc]" "is_quote qc"
    by (auto dest: quote_opt_cases)
  then show ?thesis
  proof cases
    case 1
    have "after_url u (u @ q' @ CHR '')'' # rest) = Some (q' @ '')'', rest)"
      using q' by (rule after_url_run)
    with 1 s u c show ?thesis
      by (simp add: match_ref_def)
  next
    case 2
    have "after_url u (u @ q' @ CHR '')'' # rest) = Some (q' @ '')'', rest)"
      using q' by (rule after_url_run)
    with 2 s show ?thesis
      by (simp add: match_ref_def)
  qed
qed

lemma match_ref_other:
  assumes "wf_group u" and "match_url s = Some (q, g, q', rest)" and "g \<noteq> u"
  shows "match_ref u s = None"
proof (cases "match_ref u s")
  case (Some m)
  then obtain g1 g3 r where "match_ref u s = Some (g1, g3, r)"
    by (cases m) auto
  from match_ref_imp_url [OF assms(1) this] assms(2,3) show ?thesis
    by auto
qed simp

lemma match_ref_none:
  assumes "wf_group u" and "match_url s = None"
  shows "match_ref u s = None"
proof (cases "match_ref u s")
  case (Some m)
  then obtain g1 g3 r where "match_ref u s = Some (g1, g3, r)"
    by (cases m) auto
  from match_ref_imp_url [OF assms(1) this] assms(2) show ?thesis
    by auto
qed simp

lemma expand_plain_Cons:
  "CHR ''$'' \<noteq> c \<Longrightarrow> expand (c # t) m caps f b = c # expand t m caps f b"
  by (cases t) auto

lemma expand_plain:
  "CHR ''$'' \<notin> set d \<Longrightarrow> expand (d @ ''$3'') m [g1, u, g3] f b = d @ g3"
  by (induction d) (simp_all add: expand_plain_Cons is_digit_def digit_val_def capture_ref_def)

lemma expand_template:
  assumes "CHR ''$'' \<notin> set d"
  shows "expand (template d) m [g1, u, g3] f b = g1 @ d @ g3"
proof (cases d)
  case Nil
  then show ?thesis
    by (simp add: template_def is_digit_def digit_val_def capture_ref_def)
next
  case (Cons e d')
  have "expand (e # d' @ ''$3'') m [g1, u, g3] f b = (e # d') @ g3"
    using expand_plain [OF assms, of m g1 u g3 f b] Cons by simp
  with Cons show ?thesis
    by (simp add: template_def is_digit_def digit_val_def capture_ref_def)
qed

lemma no_url_start:
  assumes "CHR ''('' \<notin> set Y"
  shows "take 4 (Y @ CHR '')'' # rest) \<noteq> ''url(''"
proof (cases Y)
  case Nil
  then show ?thesis by simp
next
  case (Cons a Y1)
  show ?thesis
  proof (cases Y1)
    case Nil
    with Cons show ?thesis by simp
  next
    case (Cons b Y2)
    note Y1 = this
    show ?thesis
    proof (cases Y2)
      case Nil
      with \<open>Y = a # Y1\<close> Y1 show ?thesis by simp
    next
      case (Cons c Y3)
      note Y2 = this
      show ?thesis
      proof (cases Y3)
        case Nil
        with \<open>Y = a # Y1\<close> Y1 Y2 show ?thesis by simp
      next
        case (Cons d Y4)
        with \<open>Y = a # Y1\<close> Y1 Y2 assms show ?thesis by auto
      qed
    qed
  qed
qed

lemma match_ref_needs_url: "take 4 s \<noteq> ''url('' \<Longrightarrow> match_ref u s = None"
  by (simp add: match_ref_def)

lemma replace_skip:
  "CHR ''('' \<notin> set Y \<Longrightarrow>
   replace_refs u t f (Y @ CHR '')'' # rest)
     = Y @ CHR '')'' # replace_refs u t (f @ Y @ '')'') rest"
proof (induction Y arbitrary: f)
  case Nil
  then show ?case
    by (simp add: match_ref_needs_url)
next
  case (Cons y Y)
  then have "match_ref u ((y # Y) @ CHR '')'' # rest) = None"
    by (intro match_ref_needs_url no_url_start) simp
  with Cons show ?case by simp
qed

lemma replace_skip_ref:
  assumes "match_ref u (''url('' @ Y @ CHR '')'' # rest) = None" and "CHR ''('' \<notin> set Y"
  shows "replace_refs u t f (''url('' @ Y @ CHR '')'' # rest)
           = ''url('' @ Y @ CHR '')'' # replace_refs u t (f @ ''url('' @ Y @ '')'') rest"
proof -
  have r: "match_ref u (''rl('' @ Y @ CHR '')'' # rest) = None"
    and l: "match_ref u (''l('' @ Y @ CHR '')'' # rest) = None"
    and p: "match_ref u (''('' @ Y @ CHR '')'' # rest) = None"
    by (simp_all add: match_ref_def)
  show ?thesis
    using assms(1) r l p replace_skip [OF assms(2), of u t "f @ ''url(''" rest]
    by simp
qed

lemma quote_opt_no_paren: "quote_opt q \<Longrightarrow> CHR ''('' \<notin> set q"
  by (auto simp: is_quote_def dest!: quote_opt_cases)

lemma render_Cons: "render (tok # ts) = render_token tok @ render ts"
  by (simp add: render_def)

lemma render_Nil: "render [] = []"
  by (simp add: render_def)

lemma replace_tokens:
  assumes "wf_group u" and "CHR ''$'' \<notin> set d"
  shows "(\<forall>g\<in>set (scan_urls s). CHR ''('' \<notin> set g) \<Longrightarrow>
         replace_refs u (template d) f s = render (map (subst u d) (tokens s))"
proof (induction s arbitrary: f rule: tokens.induct)
  case 1
  then show ?case by (simp add: render_Nil)
next
  case (2 c cs)
  show ?case
  proof (cases "match_url (c # cs)")
    case None
    then have "match_ref u (c # cs) = None"
      using assms(1) by (intro match_ref_none)
    with None "2.IH"(1) [OF None, of "f @ [c]"] "2.prems" show ?thesis
      by (simp add: render_Cons)
  next
    case (Some m)
    then obtain q g q' rest where m: "match_url (c # cs) = Some (q, g, q', rest)"
      by (cases m) auto
    from match_url_Some [OF m] have s: "c # cs = ''url('' @ q @ g @ q' @ CHR '')'' # rest"
        and wf: "wf_ref q g q'"
      by simp_all
    from m "2.prems" have open_g: "CHR ''('' \<notin> set g"
        and later: "\<forall>g\<in>set (scan_urls rest). CHR ''('' \<notin> set g"
      by simp_all
    have IH: "replace_refs u (template d) f' rest
        = render (map (subst u d) (tokens rest))" for f'
      using "2.IH"(2) [OF m refl refl refl later] by simp
    show ?thesis
    proof (cases "g = u")
      case True
      with m have "match_ref u (c # cs) = Some (''url('' @ q, q' @ '')'', rest)"
        by (intro match_url_imp_ref) simp
      with True m IH show ?thesis
        by (simp add: expand_template [OF assms(2)] render_Cons)
    next
      case False
      have none: "match_ref u (''url('' @ (q @ g @ q') @ CHR '')'' # rest) = None"
        using match_ref_other [OF assms(1) m False] s by simp
      have "CHR ''('' \<notin> set (q @ g @ q')"
        using wf open_g by (auto simp: wf_ref_def dest: quote_opt_no_paren)
      from replace_skip_ref [OF none this, of "template d" f]
      have "replace_refs u (template d) f (c # cs)
          = ''url('' @ q @ g @ q' @ CHR '')'' # render (map (subst u d) (tokens rest))"
        unfolding s IH by simp
      with False m show ?thesis
        by (simp add: render_Cons)
    qed
  qed
qed

lemma wf_data_group: "wf_data d \<Longrightarrow> wf_group d"
  by (cases d) (auto simp: wf_data_def wf_group_def)

lemma wf_data_hd: "wf_data d \<Longrightarrow> hd d \<noteq> CHR '')''"
  by (cases d) (auto simp: wf_data_def)

lemma wf_token_subst: "wf_data d \<Longrightarrow> wf_token tok \<Longrightarrow> wf_token (subst u d tok)"
  by (cases tok) (auto simp: wf_ref_def dest: wf_data_group)

lemma body_into_ref:
  assumes "wf_ref q x q'"
  shows "(url_body g (q @ x @ q' @ CHR '')'' # R) = None) = (q \<noteq> [] \<and> hd x \<noteq> CHR '')'')"
proof -
  from assms obtain c b where x: "x = c # b" and c: "\<not> is_quote c"
      and b: "\<forall>c\<in>set b. \<not> is_quote c \<and> c \<noteq> CHR '')''" and q': "quote_opt q'"
    by (cases x) (auto simp: wf_ref_def wf_group_def)
  from assms have "quote_opt q" by (simp add: wf_ref_def)
  then consider "q = []" | qc where "q = [qc]" "is_quote qc"
    by (auto dest: quote_opt_cases)
  then show ?thesis
  proof cases
    case 1
    have "url_body (g @ [c]) (b @ q' @ CHR '')'' # R) = Some ((g @ [c]) @ b, q', R)"
      using b q' by (rule url_body_run)
    with 1 x c show ?thesis by simp
  next
    case 2
    with x show ?thesis by simp
  qed
qed

lemma url_body_open: "url_body g (''url('' @ Z) = url_body (g @ ''url('') Z"
  by (simp add: is_quote_def)

lemma render_Lit: "render (Lit c # T) = c # render T"
  by (simp add: render_def)

lemma render_Ref: "render (Ref q g q' # T) = ''url('' @ (q @ g @ q' @ CHR '')'' # render T)"
  by (simp add: render_def)

lemma url_body_at_ref:
  assumes "wf_ref q x q'" and "wf_data d"
      and "url_body g (render (Ref q x q' # T)) = None"
  shows "url_body g' (render (subst u d (Ref q x q') # T')) = None"
proof -
  from assms(3) have "url_body (g @ ''url('') (q @ x @ q' @ CHR '')'' # render T) = None"
    unfolding render_Ref url_body_open .
  with body_into_ref [OF assms(1)] have q: "q \<noteq> []" and x: "hd x \<noteq> CHR '')''"
    by simp_all
  let ?x = "if x = u then d else x"
  have "wf_ref q ?x q'"
    using assms(1,2) by (auto simp: wf_ref_def dest: wf_data_group)
  moreover have "hd ?x \<noteq> CHR '')''"
    using x wf_data_hd [OF assms(2)] by simp
  ultimately have "url_body (g' @ ''url('') (q @ ?x @ q' @ CHR '')'' # render T') = None"
    using q body_into_ref by blast
  then show ?thesis
    unfolding subst.simps render_Ref url_body_open .
qed

lemma url_body_tokens:
  assumes "wf_data d"
  shows "\<forall>tok\<in>set T. wf_token tok \<Longrightarrow> url_body g (render T) = None \<Longrightarrow>
         url_body g' (render (map (subst u d) T)) = None"
proof (induction T arbitrary: g g')
  case Nil
  then show ?case by (simp add: render_Nil)
next
  case (Cons tok T)
  show ?case
  proof (cases tok)
    case (Lit c)
    show ?thesis
    proof (cases "is_quote c")
      case True
      show ?thesis
      proof (cases T)
        case Nil
        with Lit True show ?thesis by (simp add: render_Lit render_Nil)
      next
        case (Cons tok2 T2)
        show ?thesis
        proof (cases tok2)
          case (Lit c2)
          with \<open>tok = Lit c\<close> True Cons Cons.prems(2) show ?thesis
            by (simp add: render_Lit split: if_splits)
        next
          case (Ref q2 g2 q2')
          with \<open>tok = Lit c\<close> True Cons show ?thesis
            by (simp add: render_Lit render_Ref)
        qed
      qed
    next
      case False
      with Lit Cons.prems(2) have "c \<noteq> CHR '')''" and "url_body (g @ [c]) (render T) = None"
        by (auto simp: render_Lit split: if_splits)
      with Cons.IH [of "g @ [c]" "g' @ [c]"] Cons.prems(1) Lit False show ?thesis
        by (simp add: render_Lit)
    qed
  next
    case (Ref q x q')
    with Cons.prems have "wf_ref q x q'" and "url_body g (render (Ref q x q' # T)) = None"
      by simp_all
    from url_body_at_ref [OF this(1) assms this(2)] Ref show ?thesis
      by simp
  qed
qed

lemma after_open_quote:
  "is_quote c \<Longrightarrow>
   after_open (c # r) =
     (case r of
        [] \<Rightarrow> None
      | c1 # cs \<Rightarrow>
          if is_quote c1 then None
          else map_option (\<lambda>(g, q', rest). ([c], g, q', rest)) (url_body [c1] cs))"
  by (simp add: after_open_def)

lemma after_open_bare:
  "\<not> is_quote c \<Longrightarrow>
   after_open (c # r) = map_option (\<lambda>(g, q', rest). ([], g, q', rest)) (url_body [c] r)"
  by (simp add: after_open_def)

lemma url_body_from_ref:
  assumes "wf_ref q x q'" and "wf_data d"
      and "url_body ''u'' (''rl('' @ q @ x @ q' @ CHR '')'' # render T) = None"
  shows "url_body ''u'' (''rl('' @ q @ (if x = u then d else x) @ q' @ CHR '')'' # render T') = None"
proof -
  have "url_body [] (render (Ref q x q' # T)) = None"
    using assms(3) by (simp add: render_Ref is_quote_def)
  from url_body_at_ref [OF assms(1,2) this, of "[]" u T'] show ?thesis
    by (simp add: render_Ref is_quote_def)
qed

lemma not_quote_u [simp]: "\<not> is_quote CHR ''u''"
  by (simp add: is_quote_def)

lemma after_open_first:
  assumes "wf_data d" and "\<forall>tok\<in>set T. wf_token tok"
  shows "(case render T of
            [] \<Rightarrow> None
          | c1 # cs \<Rightarrow> if is_quote c1 then None else map_option F (url_body [c1] cs)) = None \<Longrightarrow>
         (case render (map (subst u d) T) of
            [] \<Rightarrow> None
          | c1 # cs \<Rightarrow> if is_quote c1 then None else map_option F' (url_body [c1] cs)) = None"
proof (cases T)
  case Nil
  then show ?thesis by (simp add: render_Nil)
next
  case (Cons tok T1)
  assume fails: "(case render T of
            [] \<Rightarrow> None
          | c1 # cs \<Rightarrow> if is_quote c1 then None else map_option F (url_body [c1] cs)) = None"
  show ?thesis
  proof (cases tok)
    case (Lit c1)
    show ?thesis
    proof (cases "is_quote c1")
      case True
      with Lit Cons show ?thesis by (simp add: render_Lit)
    next
      case False
      with Lit Cons fails have "url_body [c1] (render T1) = None"
        by (simp add: render_Lit)
      from url_body_tokens [OF assms(1) _ this, of "[c1]" u] assms(2) Cons
      have "url_body [c1] (render (map (subst u d) T1)) = None"
        by simp
      with Lit Cons False show ?thesis by (simp add: render_Lit)
    qed
  next
    case (Ref q x q')
    with Cons assms(2) have wf: "wf_ref q x q'" by simp
    from Ref Cons fails
    have "url_body ''u'' (''rl('' @ q @ x @ q' @ CHR '')'' # render T1) = None"
      by (simp add: render_Ref)
    from url_body_from_ref [OF wf assms(1) this, of u "map (subst u d) T1"] Ref Cons
    show ?thesis
      by (simp add: render_Ref)
  qed
qed

lemma after_open_tokens:
  assumes "wf_data d" and "\<forall>tok\<in>set T. wf_token tok" and "after_open (render T) = None"
  shows "after_open (render (map (subst u d) T)) = None"
proof (cases T)
  case Nil
  then show ?thesis by (simp add: render_Nil after_open_def)
next
  case (Cons tok T1)
  show ?thesis
  proof (cases tok)
    case (Lit c)
    show ?thesis
    proof (cases "is_quote c")
      case True
      from assms(2) Cons have wf1: "\<forall>tok\<in>set T1. wf_token tok" by simp
      from assms(3) Cons Lit True
      have "(case render T1 of
               [] \<Rightarrow> None
             | c1 # cs \<Rightarrow>
                 if is_quote c1 then None
                 else map_option (\<lambda>(g, q', rest). ([c], g, q', rest)) (url_body [c1] cs)) = None"
        by (simp add: render_Lit after_open_quote)
      from after_open_first [OF assms(1) wf1 this] Cons Lit True show ?thesis
        by (simp add: render_Lit after_open_quote)
    next
      case False
      with assms(3) Cons Lit have "url_body [c] (render T1) = None"
        by (simp add: render_Lit after_open_bare)
      from url_body_tokens [OF assms(1) _ this, of "[c]" u] assms(2) Cons
      have "url_body [c] (render (map (subst u d) T1)) = None"
        by simp
      with Cons Lit False show ?thesis
        by (simp add: render_Lit after_open_bare)
    qed
  next
    case (Ref q x q')
    with Cons assms(2) have wf: "wf_ref q x q'" by simp
    from assms(3) Cons Ref
    have "url_body ''u'' (''rl('' @ q @ x @ q' @ CHR '')'' # render T1) = None"
      by (simp add: render_Ref after_open_bare)
    from url_body_from_ref [OF wf assms(1) this, of u "map (subst u d) T1"] Cons Ref
    show ?thesis
      by (simp add: render_Ref after_open_bare)
  qed
qed

lemma render_starts_plain:
  assumes "render T = x # rest" and "x \<noteq> CHR ''u''"
  shows "\<exists>T'. T = Lit x # T' \<and> rest = render T'"
proof (cases T)
  case Nil
  with assms show ?thesis by (simp add: render_Nil)
next
  case (Cons tok T')
  with assms show ?thesis
    by (cases tok) (auto simp: render_Lit render_Ref)
qed

lemma subst_is_Lit: "subst u d tok = Lit x \<Longrightarrow> tok = Lit x"
  by (cases tok) simp_all

lemma render_map_starts_plain:
  assumes "render (map (subst u d) T) = x # rest" and "x \<noteq> CHR ''u''"
  shows "\<exists>T'. T = Lit x # T' \<and> rest = render (map (subst u d) T')"
proof -
  from render_starts_plain [OF assms] obtain M where M: "map (subst u d) T = Lit x # M"
      and rest: "rest = render M"
    by auto
  then obtain tok T' where T: "T = tok # T'" and "subst u d tok = Lit x"
      and "M = map (subst u d) T'"
    by (cases T) auto
  with rest show ?thesis
    by (auto dest: subst_is_Lit)
qed

lemma match_url_Cons:
  "match_url (c # s) =
     (if c = CHR ''u'' \<and> take 3 s = ''rl('' then after_open (drop 3 s) else None)"
  by (auto simp: match_url_def)

lemma take3_rl:
  assumes "take 3 s = ''rl(''"
  shows "s = CHR ''r'' # CHR ''l'' # CHR ''('' # drop 3 s"
proof -
  have "s = take 3 s @ drop 3 s" by simp
  with assms show ?thesis by simp
qed

lemma match_url_tokens:
  assumes "wf_data d" and "\<forall>tok\<in>set T. wf_token tok"
      and "match_url (c # render T) = None"
  shows "match_url (c # render (map (subst u d) T)) = None"
proof (cases "c = CHR ''u'' \<and> take 3 (render (map (subst u d) T)) = ''rl(''")
  case False
  then show ?thesis by (auto simp: match_url_Cons)
next
  case True
  let ?S' = "render (map (subst u d) T)"
  from True take3_rl have S': "?S' = CHR ''r'' # CHR ''l'' # CHR ''('' # drop 3 ?S'"
    by blast
  from render_map_starts_plain [OF S'] obtain T1 where T1: "T = Lit CHR ''r'' # T1"
      and r1: "CHR ''l'' # CHR ''('' # drop 3 ?S' = render (map (subst u d) T1)"
    by auto
  from render_map_starts_plain [OF r1 [symmetric]] obtain T2 where T2: "T1 = Lit CHR ''l'' # T2"
      and r2: "CHR ''('' # drop 3 ?S' = render (map (subst u d) T2)"
    by auto
  from render_map_starts_plain [OF r2 [symmetric]] obtain T3 where T3: "T2 = Lit CHR ''('' # T3"
      and r3: "drop 3 ?S' = render (map (subst u d) T3)"
    by auto
  have T: "T = Lit CHR ''r'' # Lit CHR ''l'' # Lit CHR ''('' # T3"
    using T1 T2 T3 by simp
  with assms(3) True have "after_open (render T3) = None"
    by (simp add: match_url_Cons render_Lit)
  moreover from assms(2) T have "\<forall>tok\<in>set T3. wf_token tok"
    by simp
  ultimately have "after_open (render (map (subst u d) T3)) = None"
    using assms(1) after_open_tokens by blast
  with True r3 show ?thesis
    by (simp add: match_url_Cons)
qed

lemma tokens_wf: "\<forall>tok\<in>set (tokens s). wf_token tok"
proof (induction s rule: tokens.induct)
  case 1
  then show ?case by simp
next
  case (2 c cs)
  show ?case
  proof (cases "match_url (c # cs)")
    case None
    with "2.IH"(1) show ?thesis by simp
  next
    case (Some m)
    then obtain q g q' rest where m: "match_url (c # cs) = Some (q, g, q', rest)"
      by (cases m) auto
    with "2.IH"(2) [OF m refl refl refl] match_url_Some [OF m] show ?thesis
      by simp
  qed
qed

lemma render_tokens: "render (tokens s) = s"
proof (induction s rule: tokens.induct)
  case 1
  then show ?case by (simp add: render_Nil)
next
  case (2 c cs)
  show ?case
  proof (cases "match_url (c # cs)")
    case None
    with "2.IH"(1) show ?thesis by (simp add: render_Lit)
  next
    case (Some m)
    then obtain q g q' rest where m: "match_url (c # cs) = Some (q, g, q', rest)"
      by (cases m) auto
    with "2.IH"(2) [OF m refl refl refl] match_url_Some [OF m] show ?thesis
      by (simp add: render_Ref)
  qed
qed

lemma scan_groups: "scan_urls s = groups (tokens s)"
proof (induction s rule: tokens.induct)
  case 1
  then show ?case by simp
next
  case (2 c cs)
  show ?case
  proof (cases "match_url (c # cs)")
    case None
    with "2.IH"(1) show ?thesis by simp
  next
    case (Some m)
    then obtain q g q' rest where m: "match_url (c # cs) = Some (q, g, q', rest)"
      by (cases m) auto
    with "2.IH"(2) [OF m refl refl refl] show ?thesis
      by simp
  qed
qed

lemma tokens_render_Ref:
  assumes "wf_ref q g q'"
  shows "tokens (render (Ref q g q' # T)) = Ref q g q' # tokens (render T)"
proof -
  let ?cs = "''rl('' @ q @ g @ q' @ CHR '')'' # render T"
  have r: "render (Ref q g q' # T) = CHR ''u'' # ?cs"
    by (simp add: render_Ref)
  have "match_url (CHR ''u'' # ?cs) = Some (q, g, q', render T)"
    using match_url_ref [OF assms, of "render T"] by simp
  then show ?thesis
    unfolding r by simp
qed

lemma tokens_render_Lit:
  "match_url (c # render T) = None \<Longrightarrow> tokens (render (Lit c # T)) = Lit c # tokens (render T)"
  by (simp add: render_Lit)

lemma tokens_render_Lit_inv:
  assumes "tokens (render (Lit c # T)) = Lit c # T"
  shows "match_url (c # render T) = None \<and> tokens (render T) = T"
proof (cases "match_url (c # render T)")
  case None
  with assms show ?thesis by (simp add: render_Lit)
next
  case (Some m)
  with assms show ?thesis
    by (cases m) (auto simp: render_Lit)
qed

lemma canon_subst:
  assumes "wf_data d"
  shows "\<forall>tok\<in>set T. wf_token tok \<Longrightarrow> tokens (render T) = T \<Longrightarrow>
         tokens (render (map (subst u d) T)) = map (subst u d) T"
proof (induction T)
  case Nil
  then show ?case by (simp add: render_Nil)
next
  case (Cons tok T)
  from Cons.prems(1) have wfT: "\<forall>tok\<in>set T. wf_token tok" by simp
  show ?case
  proof (cases tok)
    case (Lit c)
    with Cons.prems(2) have none: "match_url (c # render T) = None"
        and canon: "tokens (render T) = T"
      using tokens_render_Lit_inv by blast+
    from match_url_tokens [OF assms wfT none]
    have "match_url (c # render (map (subst u d) T)) = None" .
    from tokens_render_Lit [OF this] Cons.IH [OF wfT canon] Lit show ?thesis
      by simp
  next
    case (Ref q x q')
    with Cons.prems(1) have wf: "wf_ref q x q'" by simp
    from Cons.prems(2) Ref tokens_render_Ref [OF wf, of T] have canon: "tokens (render T) = T"
      by simp
    have "wf_ref q (if x = u then d else x) q'"
      using wf assms by (auto simp: wf_ref_def dest: wf_data_group)
    from tokens_render_Ref [OF this] Cons.IH [OF wfT canon] Ref show ?thesis
      by simp
  qed
qed

lemma tokens_subst:
  assumes "wf_data d"
  shows "tokens (render (map (subst u d) (tokens s))) = map (subst u d) (tokens s)"
  using canon_subst [OF assms tokens_wf, of s] by (simp add: render_tokens)

lemma plain_append: "plain (a @ b) = (plain a \<and> plain b)"
  by (auto simp: plain_def)

lemma base64_plain:
  assumes "base64 p"
  shows "plain p"
proof -
  have "\<forall>c\<in>set ''ABCDEFGHIJKLMNOPQRSTUVWXYZabcdefghijklmnopqrstuvwxyz0123456789+/=''.
      \<not> is_quote c \<and> c \<noteq> CHR ''$'' \<and> c \<noteq> CHR ''('' \<and> c \<noteq> CHR '')''"
    by (simp add: is_quote_def)
  with assms show ?thesis
    unfolding base64_def plain_def by blast
qed

lemma mimes_plain: "\<forall>m\<in>set (map snd mimes). plain m"
  by (simp add: mimes_def plain_def is_quote_def)

lemma mimeType_table:
  assumes "inherited h (toLowerCase (parseExtension u)) = None"
  shows "mimeType h u \<in> set (map snd mimes) \<or> mimeType h u = []"
proof (cases "map_of mimes (toLowerCase (parseExtension u))")
  case None
  with assms show ?thesis by (simp add: mimeType_def)
next
  case (Some m)
  then have "m \<in> set (map snd mimes)"
    by (auto dest: map_of_SomeD intro: rev_image_eqI)
  with Some show ?thesis by (simp add: mimeType_def)
qed

lemma mimeType_plain:
  assumes "inherited h (toLowerCase (parseExtension u)) = None"
  shows "plain (mimeType h u)"
proof -
  from mimeType_table [OF assms]
  consider "mimeType h u \<in> set (map snd mimes)" | "mimeType h u = []"
    by blast
  then show ?thesis
  proof cases
    case 1
    with mimes_plain show ?thesis by blast
  next
    case 2
    then show ?thesis by (simp add: plain_def)
  qed
qed

lemma dataAsUrl_plain:
  assumes "plain m" and "plain p"
  shows "plain (dataAsUrl (Some p) m)"
proof -
  have "plain ''data:''" and "plain '';base64,''"
    by (simp_all add: plain_def is_quote_def)
  with assms show ?thesis
    by (simp add: dataAsUrl_def text_of_def plain_append del: append.simps)
qed

lemma dataAsUrl_is_data: "isDataUrl (dataAsUrl v m)"
  by (simp add: dataAsUrl_def isDataUrl_def)

lemma dataAsUrl_nonempty: "dataAsUrl v m \<noteq> []"
  by (simp add: dataAsUrl_def)

lemma plain_wf_data: "plain d \<Longrightarrow> d \<noteq> [] \<Longrightarrow> wf_data d"
  by (auto simp: plain_def wf_data_def)

lemma plain_no_dollar: "plain d \<Longrightarrow> CHR ''$'' \<notin> set d"
  by (auto simp: plain_def)

lemma plain_no_open: "plain d \<Longrightarrow> CHR ''('' \<notin> set d"
  by (auto simp: plain_def)

lemma groups_subst: "set (groups (map (subst u d) T)) \<subseteq> insert d (set (groups T))"
  by (induction T rule: groups.induct) auto

lemma inline_tokens:
  assumes "wf_group u" and "get (fetch_target h baseUrl u) = Fulfilled (Some p)"
      and "plain (dataAsUrl (Some p) (mimeType h u))"
      and "\<forall>g\<in>set (scan_urls cur). CHR ''('' \<notin> set g"
  shows "inline h get cur u baseUrl
           = Fulfilled (render (map (subst u (dataAsUrl (Some p) (mimeType h u))) (tokens cur)))"
  using replace_tokens [OF assms(1) plain_no_dollar [OF assms(3)] assms(4), of "[]"] assms(2)
  by (simp add: inline_def)

lemma inline_fold:
  fixes h get baseUrl payload
  defines "D \<equiv> \<lambda>u. dataAsUrl (Some (payload u)) (mimeType h u)"
  shows "\<forall>u\<in>set us. wf_group u \<and> get (fetch_target h baseUrl u) = Fulfilled (Some (payload u)) \<and>
                      plain (D u) \<Longrightarrow>
         \<forall>g\<in>set (scan_urls cur). CHR ''('' \<notin> set g \<Longrightarrow>
         foldl (\<lambda>done url. then_p done (\<lambda>string. inline h get string url baseUrl))
             (Fulfilled cur) us
           = Fulfilled (render (subst_all D us (tokens cur))) \<and>
         tokens (render (subst_all D us (tokens cur))) = subst_all D us (tokens cur)"
proof (induction us arbitrary: cur)
  case Nil
  then show ?case by (simp add: render_tokens)
next
  case (Cons u us)
  let ?T = "map (subst u (D u)) (tokens cur)"
  from Cons.prems(1) have u: "wf_group u"
      "get (fetch_target h baseUrl u) = Fulfilled (Some (payload u))" "plain (D u)"
    by simp_all
  have step: "inline h get cur u baseUrl = Fulfilled (render ?T)"
    using inline_tokens [where get = get and h = h and baseUrl = baseUrl and u = u
        and p = "payload u" and cur = cur] u Cons.prems(2)
    by (simp add: D_def)
  have wfd: "wf_data (D u)"
    using u(3) by (intro plain_wf_data) (simp_all add: D_def dataAsUrl_nonempty)
  have canon: "tokens (render ?T) = ?T"
    using wfd by (rule tokens_subst)
  have "set (scan_urls (render ?T)) \<subseteq> insert (D u) (set (scan_urls cur))"
    using groups_subst [of u "D u" "tokens cur"] by (simp add: scan_groups canon)
  with Cons.prems(2) plain_no_open [OF u(3)]
  have open': "\<forall>g\<in>set (scan_urls (render ?T)). CHR ''('' \<notin> set g"
    by auto
  from Cons.prems(1) have rest:
    "\<forall>u\<in>set us. wf_group u \<and> get (fetch_target h baseUrl u) = Fulfilled (Some (payload u)) \<and>
        plain (D u)"
    by simp
  from Cons.IH [OF rest open'] step show ?case
    by (simp add: canon)
qed

lemma subst_all_map:
  "subst_all D us T = map (\<lambda>tok. foldl (\<lambda>t u. subst u (D u) t) tok us) T"
  by (induction us arbitrary: T) (simp_all add: comp_def)

lemma fold_subst_Lit: "foldl (\<lambda>t u. subst u (D u) t) (Lit c) us = Lit c"
  by (induction us) simp_all

lemma fold_subst_Ref:
  "\<forall>u\<in>set us. \<not> isDataUrl u \<and> isDataUrl (D u) \<Longrightarrow>
   foldl (\<lambda>t u. subst u (D u) t) (Ref q g q') us = Ref q (if g \<in> set us then D g else g) q'"
proof (induction us arbitrary: g)
  case Nil
  then show ?case by simp
next
  case (Cons a us)
  then have IH: "foldl (\<lambda>t u. subst u (D u) t) (Ref q g' q') us
      = Ref q (if g' \<in> set us then D g' else g') q'" for g'
    by simp
  from Cons.prems have "D a \<notin> set us"
    by auto
  with IH show ?case by simp
qed

lemma in_groups: "Ref q g q' \<in> set T \<Longrightarrow> g \<in> set (groups T)"
  by (induction T rule: groups.induct) auto

lemma subst_all_embed:
  assumes "us = filter (\<lambda>url. \<not> isDataUrl url) (groups T)"
  shows "subst_all (\<lambda>u. dataAsUrl (Some (payload u)) (mimeType h u)) us T
           = map (spec_embed h payload) T"
proof -
  let ?D = "\<lambda>u. dataAsUrl (Some (payload u)) (mimeType h u)"
  have us: "\<forall>u\<in>set us. \<not> isDataUrl u \<and> isDataUrl (?D u)"
    using assms by (simp add: dataAsUrl_is_data)
  have "foldl (\<lambda>t u. subst u (?D u) t) tok us = spec_embed h payload tok" if "tok \<in> set T" for tok
  proof (cases tok)
    case (Lit c)
    then show ?thesis by (simp add: fold_subst_Lit)
  next
    case (Ref q g q')
    with that have "g \<in> set (groups T)" by (auto dest: in_groups)
    then have "(g \<in> set us) = (\<not> isDataUrl g)"
      using assms by simp
    with Ref fold_subst_Ref [OF us, of q g q'] show ?thesis
      by simp
  qed
  then show ?thesis
    unfolding subst_all_map by simp
qed

lemma groups_embed:
  "groups (map (spec_embed h payload) T)
     = map (\<lambda>g. if isDataUrl g then g else dataAsUrl (Some (payload g)) (mimeType h g)) (groups T)"
  by (induction T rule: groups.induct) simp_all

lemma inlineAll_fold:
  "inlineAll h get s baseUrl
     = foldl (\<lambda>done url. then_p done (\<lambda>string. inline h get string url baseUrl))
         (Fulfilled s) (readUrls s)"
  by (simp add: inlineAll_def shouldProcess_scan readUrls_def)

lemma groups_wf: "\<forall>tok\<in>set T. wf_token tok \<Longrightarrow> g \<in> set (groups T) \<Longrightarrow> wf_group g"
  by (induction T rule: groups.induct) (auto simp: wf_ref_def)

lemma scan_urls_wf: "g \<in> set (scan_urls s) \<Longrightarrow> wf_group g"
  using groups_wf [OF tokens_wf] by (simp add: scan_groups)

text \<open>
  Claim C8, amended. Take a text in which no reference found by the scan contains an
  opening parenthesis, a fetch that answers every external reference with a base64 payload,
  and extensions that name no inherited member of the MIME table. Then \<open>inlineAll\<close> yields
  the text with every external reference replaced by the one data URL
  \<open>data:\<close>MIME\<open>;base64,\<close>payload, between the same \<open>url(\<close>, quotes and \<open>)\<close>, and everything else
  unchanged; the MIME type is an entry of the table or empty; and a new scan finds the
  references in the same places, none of them external.
\<close>

theorem inlineAll_embeds_references:
  assumes no_open: "\<forall>g\<in>set (scan_urls s). CHR ''('' \<notin> set g"
      and fetched: "\<forall>u\<in>set (readUrls s).
                      get (fetch_target h baseUrl u) = Fulfilled (Some (payload u)) \<and>
                      base64 (payload u)"
      and known: "\<forall>u\<in>set (readUrls s). inherited h (toLowerCase (parseExtension u)) = None"
  shows "render (tokens s) = s \<and>
         inlineAll h get s baseUrl = Fulfilled (render (map (spec_embed h payload) (tokens s))) \<and>
         scan_urls (render (map (spec_embed h payload) (tokens s)))
           = map (\<lambda>g. if isDataUrl g then g else dataAsUrl (Some (payload g)) (mimeType h g))
               (scan_urls s) \<and>
         readUrls (render (map (spec_embed h payload) (tokens s))) = [] \<and>
         (\<forall>u\<in>set (readUrls s). mimeType h u \<in> set (map snd mimes) \<or> mimeType h u = [])"
proof -
  let ?D = "\<lambda>u. dataAsUrl (Some (payload u)) (mimeType h u)"
  let ?T = "map (spec_embed h payload) (tokens s)"
  have each: "\<forall>u\<in>set (readUrls s).
      wf_group u \<and> get (fetch_target h baseUrl u) = Fulfilled (Some (payload u)) \<and> plain (?D u)"
  proof
    fix u assume u: "u \<in> set (readUrls s)"
    then have "u \<in> set (scan_urls s)" by (simp add: readUrls_def)
    then have "wf_group u" by (rule scan_urls_wf)
    moreover have "plain (?D u)"
      using u fetched known by (intro dataAsUrl_plain mimeType_plain base64_plain) auto
    ultimately show "wf_group u \<and>
        get (fetch_target h baseUrl u) = Fulfilled (Some (payload u)) \<and> plain (?D u)"
      using u fetched by simp
  qed
  have all: "subst_all ?D (readUrls s) (tokens s) = ?T"
    by (rule subst_all_embed) (simp add: readUrls_def scan_groups)
  from inline_fold [OF each no_open]
  have run: "inlineAll h get s baseUrl = Fulfilled (render ?T)"
      and canon: "tokens (render ?T) = ?T"
    unfolding all inlineAll_fold by simp_all
  have scan: "scan_urls (render ?T) = map (\<lambda>g. if isDataUrl g then g else ?D g) (scan_urls s)"
    by (simp add: scan_groups canon groups_embed)
  have "readUrls (render ?T) = []"
    unfolding readUrls_def scan by (auto simp: filter_empty_conv dataAsUrl_is_data)
  moreover have "\<forall>u\<in>set (readUrls s). mimeType h u \<in> set (map snd mimes) \<or> mimeType h u = []"
    using known mimeType_table by blast
  ultimately show ?thesis
    using run scan render_tokens by blast
qed

lemma two_refs_scan: "scan_urls two_refs = [''x.png'', ''y.foo'']"
  by code_simp

lemma two_refs_tokens: "render (map (spec_embed sample_host (\<lambda>u. ''QUJD'')) (tokens two_refs)) = two_refs_inlined"
  by code_simp

lemma two_refs_known:
  "inherited sample_host (toLowerCase (parseExtension ''x.png'')) = None \<and>
   inherited sample_host (toLowerCase (parseExtension ''y.foo'')) = None"
  by code_simp

lemma base64_sample: "base64 ''QUJD''"
  by (simp add: base64_def)

theorem inlineAll_embeds_references_witness:
  "inlineAll sample_host get_abc two_refs None = Fulfilled two_refs_inlined \<and>
   readUrls two_refs = [''x.png'', ''y.foo''] \<and>
   readUrls two_refs_inlined = []"
proof -
  have r: "readUrls two_refs = [''x.png'', ''y.foo'']"
    by (simp add: readUrls_def two_refs_scan isDataUrl_def)
  have "\<forall>g\<in>set (scan_urls two_refs). CHR ''('' \<notin> set g"
    by (simp add: two_refs_scan)
  moreover have "\<forall>u\<in>set (readUrls two_refs).
      get_abc (fetch_target sample_host None u) = Fulfilled (Some ((\<lambda>u. ''QUJD'') u)) \<and>
      base64 ((\<lambda>u. ''QUJD'') u)"
    by (simp add: get_abc_def base64_sample)
  moreover have "\<forall>u\<in>set (readUrls two_refs).
      inherited sample_host (toLowerCase (parseExtension u)) = None"
    using two_refs_known by (simp add: r)
  ultimately show ?thesis
    using inlineAll_embeds_references
      [of two_refs get_abc sample_host None "\<lambda>u. ''QUJD''"] r
    by (simp add: two_refs_tokens)
qed

text \<open>
  Claim C8 as stated fails: in \<open>url(a);url();url(a)\<close> the scan finds the references \<open>a\<close> and
  \<open>);url(a\<close>; inlining \<open>a\<close> rewrites both occurrences of \<open>url(a)\<close>, the second reference no
  longer occurs, and a new scan finds a reference that is not a data URL.
\<close>

theorem rescan_finds_external_reference:
  "inlineAll sample_host get_abc ''url(a);url();url(a)'' None
     = Fulfilled ''url(data:;base64,QUJD);url();url(data:;base64,QUJD)'' \<and>
   readUrls ''url(data:;base64,QUJD);url();url(data:;base64,QUJD)''
     = ['');url(data:;base64,QUJD'']"
  by code_simp

end
